theory Spec2Isabelle
  imports Main
begin

section \<open>Values, thrown values and callbacks\<close>

text \<open>
  The values the enumerable module of turing.js traverses. \<open>Arr\<close> is a true (dense) Array,
  \<open>ArrayLike\<close> an object that is not an Array but has a numeric \<open>length\<close> and indexed
  elements (an \<open>arguments\<close> object, a DOM node list), \<open>Obj\<close> a plain object given by its own
  enumerable properties in enumeration order (keys distinct). \<open>ChainerRef\<close> is the chain
  wrapper object where it occurs as a value: what a chained call returns, and on one path
  what a chained call stores in the wrapper's own field \<open>results\<close>, so that as a collection
  it is the wrapper whose only own property \<open>results\<close> holds the wrapper itself. Numbers are
  integers; sparse arrays and callbacks that mutate the collection they traverse are outside
  the model.
\<close>

datatype val =
    Undefined
  | Null
  | Bool bool
  | Num int
  | Str string
  | Arr "val list"
  | ArrayLike "val list"
  | Obj "(string \<times> val) list"
  | ChainerRef

text \<open>
  What a \<open>throw\<close> can carry: the module's \<open>Break\<close> object (known by reference), the
  host's TypeError object, or any value of the caller's.
\<close>

datatype thrown = Break | TypeError | Thrown val

text \<open>The receiver (\<open>this\<close>) of a call: a value, or a function object.\<close>

datatype recv = RVal val | RFunc

text \<open>
  A function takes its receiver, its argument list and the state its side effects act on;
  it leaves a new state and either returns a value or throws. An argument position of the
  module holds either a function or some other value.
\<close>

type_synonym 's jsfun = "recv \<Rightarrow> val list \<Rightarrow> 's \<Rightarrow> 's \<times> (thrown + val)"

datatype 's jv = V val | F "'s jsfun"

text \<open>\<open>callback.call(receiver, args...)\<close>: calling what is not a function throws a TypeError.\<close>

fun call :: "'s jv \<Rightarrow> recv \<Rightarrow> val list \<Rightarrow> 's \<Rightarrow> 's \<times> (thrown + val)" where
  "call (F f) r args s = f r args s"
| "call (V v) r args s = (s, Inl TypeError)"

fun is_callable :: "'s jv \<Rightarrow> bool" where
  "is_callable (F f) = True"
| "is_callable (V v) = False"

fun recv_of :: "'s jv \<Rightarrow> recv" where
  "recv_of (V v) = RVal v"
| "recv_of (F f) = RFunc"

text \<open>Truthiness of a value (ToBoolean).\<close>

fun truthy :: "val \<Rightarrow> bool" where
  "truthy Undefined = False"
| "truthy Null = False"
| "truthy (Bool b) = b"
| "truthy (Num n) = (n \<noteq> 0)"
| "truthy (Str s) = (s \<noteq> [])"
| "truthy v = True"

text \<open>
  The host: which of the Array.prototype methods the module looks for exist.
\<close>

record host =
  has_forEach :: bool
  has_map :: bool
  has_filter :: bool
  has_reduce :: bool
  has_some :: bool
  has_every :: bool
  has_indexOf :: bool

definition modern_host :: host where
  "modern_host = \<lparr> has_forEach = True, has_map = True, has_filter = True, has_reduce = True,
     has_some = True, has_every = True, has_indexOf = True \<rparr>"

definition legacy_host :: host where
  "legacy_host = \<lparr> has_forEach = False, has_map = False, has_filter = False,
     has_reduce = False, has_some = False, has_every = False, has_indexOf = False \<rparr>"

text \<open>
  Modelled from the spec: \<open>global.isArray\<close> and \<open>global.isNumber\<close> belong to turing.core,
  which is not among the sources; the spec calls the first the test for a true ordered
  sequence and the second the test for a numeric length.
\<close>

fun isArray :: "val \<Rightarrow> bool" where
  "isArray (Arr xs) = True"
| "isArray v = False"

fun isNumber :: "val \<Rightarrow> bool" where
  "isNumber (Num n) = True"
| "isNumber v = False"

fun nullish :: "val \<Rightarrow> bool" where
  "nullish Undefined = True"
| "nullish Null = True"
| "nullish v = False"

text \<open>Decimal name of an index, for reading \<open>enumerable[i]\<close> from a plain object.\<close>

fun dec_str :: "nat \<Rightarrow> string" where
  "dec_str n = (if n < 10 then [char_of (48 + n)]
                else dec_str (n div 10) @ [char_of (48 + n mod 10)])"

declare dec_str.simps [simp del]

fun get_prop :: "(string \<times> val) list \<Rightarrow> string \<Rightarrow> val" where
  "get_prop kvs k = (case map_of kvs k of Some v \<Rightarrow> v | None \<Rightarrow> Undefined)"

text \<open>\<open>enumerable.length\<close> of a value that is neither null nor undefined.\<close>

fun length_of :: "val \<Rightarrow> val" where
  "length_of (Arr xs) = Num (int (length xs))"
| "length_of (ArrayLike xs) = Num (int (length xs))"
| "length_of (Str s) = Num (int (length s))"
| "length_of (Obj kvs) = get_prop kvs ''length''"
| "length_of v = Undefined"

text \<open>The elements \<open>enumerable[0]\<close>, ..., \<open>enumerable[l - 1]\<close> the index loop reads.\<close>

fun indexed_elems :: "val \<Rightarrow> val list" where
  "indexed_elems (Arr xs) = xs"
| "indexed_elems (ArrayLike xs) = xs"
| "indexed_elems (Str s) = map (\<lambda>c. Str [c]) s"
| "indexed_elems (Obj kvs) =
     (case get_prop kvs ''length'' of
        Num n \<Rightarrow> map (\<lambda>i. get_prop kvs (dec_str i)) [0..<nat n]
      | _ \<Rightarrow> [])"
| "indexed_elems v = []"

text \<open>The own enumerable properties the \<open>for ... in\<close> loop with its hasOwnProperty test visits.\<close>

fun own_props :: "val \<Rightarrow> (string \<times> val) list" where
  "own_props (Obj kvs) = kvs"
| "own_props ChainerRef = [(''results'', ChainerRef)]"
| "own_props v = []"

section \<open>each\<close>

text \<open>
  \<open>e != global.enumerable.Break\<close> is the loose comparison. Against the object Break another
  object differs (comparison by reference), null, undefined, a number and a boolean differ,
  and a string is compared with the object's primitive value, which for the plain object
  \<open>{}\<close> is its \<open>toString()\<close>: \<open>[object Object]\<close>.
\<close>

fun loose_neq_Break :: "thrown \<Rightarrow> bool" where
  "loose_neq_Break Break = False"
| "loose_neq_Break TypeError = True"
| "loose_neq_Break (Thrown (Str s)) = (s \<noteq> ''[object Object]'')"
| "loose_neq_Break (Thrown v) = True"

text \<open>The three branches of each, and the test that picks one (line 39 and line 41).\<close>

datatype branch = NativeForEach | IndexLoop | KeyLoop

definition each_branch :: "host \<Rightarrow> val \<Rightarrow> branch" where
  "each_branch h enumerable =
     (if has_forEach h \<and> isArray enumerable then NativeForEach
      else if isNumber (length_of enumerable) then IndexLoop
      else KeyLoop)"

text \<open>
  \<open>for (var i = 0, l = enumerable.length; i < l; i++)
     callback.call(enumerable, enumerable[i], i, enumerable)\<close>
\<close>

fun index_loop :: "'s jv \<Rightarrow> val \<Rightarrow> val list \<Rightarrow> nat \<Rightarrow> 's \<Rightarrow> 's \<times> (thrown + unit)" where
  "index_loop callback enumerable [] i s = (s, Inr ())"
| "index_loop callback enumerable (x # xs) i s =
     (case call callback (RVal enumerable) [x, Num (int i), enumerable] s of
        (s', Inl t) \<Rightarrow> (s', Inl t)
      | (s', Inr r) \<Rightarrow> index_loop callback enumerable xs (Suc i) s')"

text \<open>
  \<open>for (var key in enumerable)
     if (hasOwnProperty.call(enumerable, key))
       callback.call(context, enumerable[key], key, enumerable)\<close>
\<close>

fun key_loop :: "'s jv \<Rightarrow> recv \<Rightarrow> val \<Rightarrow> (string \<times> val) list \<Rightarrow> 's \<Rightarrow> 's \<times> (thrown + unit)" where
  "key_loop callback context enumerable [] s = (s, Inr ())"
| "key_loop callback context enumerable ((k, v) # kvs) s =
     (case call callback context [v, Str k, enumerable] s of
        (s', Inl t) \<Rightarrow> (s', Inl t)
      | (s', Inr r) \<Rightarrow> key_loop callback context enumerable kvs s')"

text \<open>
  The host's \<open>Array.prototype.forEach\<close> on a dense array: a TypeError when the callback is
  not callable, then one call per element, in index order, with the context as receiver.
\<close>

fun forEach_loop :: "'s jv \<Rightarrow> recv \<Rightarrow> val \<Rightarrow> val list \<Rightarrow> nat \<Rightarrow> 's \<Rightarrow> 's \<times> (thrown + unit)" where
  "forEach_loop callback context arr [] i s = (s, Inr ())"
| "forEach_loop callback context arr (x # xs) i s =
     (case call callback context [x, Num (int i), arr] s of
        (s', Inl t) \<Rightarrow> (s', Inl t)
      | (s', Inr r) \<Rightarrow> forEach_loop callback context arr xs (Suc i) s')"

definition native_forEach :: "val \<Rightarrow> 's jv \<Rightarrow> 's jv \<Rightarrow> 's \<Rightarrow> 's \<times> (thrown + unit)" where
  "native_forEach arr callback context s =
     (if is_callable callback
      then forEach_loop callback (recv_of context) arr (indexed_elems arr) 0 s
      else (s, Inl TypeError))"

text \<open>
  The body of the \<open>try\<close> block. Reading a property of null or undefined throws a
  TypeError, whichever of the two property reads comes first.
\<close>

definition each_body :: "host \<Rightarrow> val \<Rightarrow> 's jv \<Rightarrow> 's jv \<Rightarrow> 's \<Rightarrow> 's \<times> (thrown + unit)" where
  "each_body h enumerable callback context s =
     (if nullish enumerable then (s, Inl TypeError)
      else case each_branch h enumerable of
        NativeForEach \<Rightarrow> native_forEach enumerable callback context s
      | IndexLoop \<Rightarrow> index_loop callback enumerable (indexed_elems enumerable) 0 s
      | KeyLoop \<Rightarrow> key_loop callback (recv_of context) enumerable (own_props enumerable) s)"

text \<open>\<open>catch(e) { if (e != global.enumerable.Break) throw e; }  return enumerable;\<close>\<close>

definition each :: "host \<Rightarrow> val \<Rightarrow> 's jv \<Rightarrow> 's jv \<Rightarrow> 's \<Rightarrow> 's \<times> (thrown + val)" where
  "each h enumerable callback context s =
     (case each_body h enumerable callback context s of
        (s', Inl e) \<Rightarrow> if loose_neq_Break e then (s', Inl e) else (s', Inr enumerable)
      | (s', Inr u) \<Rightarrow> (s', Inr enumerable))"

section \<open>map, filter, reject, detect, reduce\<close>

text \<open>A parameter of a function: the argument at that position, undefined when it is missing.\<close>

definition param :: "val list \<Rightarrow> nat \<Rightarrow> val" where
  "param args i = (if i < length args then args ! i else Undefined)"

definition jv_param :: "'s jv list \<Rightarrow> nat \<Rightarrow> 's jv" where
  "jv_param args i = (if i < length args then args ! i else V Undefined)"

text \<open>
  The host's \<open>Array.prototype.map\<close> and \<open>filter\<close> on a dense array: a TypeError when the
  callback is not callable, then one call per element in index order with the context as
  receiver; what a call throws escapes.
\<close>

fun map_loop :: "'s jv \<Rightarrow> recv \<Rightarrow> val \<Rightarrow> val list \<Rightarrow> nat \<Rightarrow> val list \<Rightarrow> 's \<Rightarrow> 's \<times> (thrown + val)" where
  "map_loop callback context arr [] i acc s = (s, Inr (Arr acc))"
| "map_loop callback context arr (x # xs) i acc s =
     (case call callback context [x, Num (int i), arr] s of
        (s', Inl t) \<Rightarrow> (s', Inl t)
      | (s', Inr r) \<Rightarrow> map_loop callback context arr xs (Suc i) (acc @ [r]) s')"

definition native_map :: "val \<Rightarrow> 's jv \<Rightarrow> 's jv \<Rightarrow> 's \<Rightarrow> 's \<times> (thrown + val)" where
  "native_map arr callback context s =
     (if is_callable callback
      then map_loop callback (recv_of context) arr (indexed_elems arr) 0 [] s
      else (s, Inl TypeError))"

fun filter_loop :: "'s jv \<Rightarrow> recv \<Rightarrow> val \<Rightarrow> val list \<Rightarrow> nat \<Rightarrow> val list \<Rightarrow> 's \<Rightarrow> 's \<times> (thrown + val)" where
  "filter_loop callback context arr [] i acc s = (s, Inr (Arr acc))"
| "filter_loop callback context arr (x # xs) i acc s =
     (case call callback context [x, Num (int i), arr] s of
        (s', Inl t) \<Rightarrow> (s', Inl t)
      | (s', Inr r) \<Rightarrow>
          filter_loop callback context arr xs (Suc i) (if truthy r then acc @ [x] else acc) s')"

definition native_filter :: "val \<Rightarrow> 's jv \<Rightarrow> 's jv \<Rightarrow> 's \<Rightarrow> 's \<times> (thrown + val)" where
  "native_filter arr callback context s =
     (if is_callable callback
      then filter_loop callback (recv_of context) arr (indexed_elems arr) 0 [] s
      else (s, Inl TypeError))"

text \<open>
  The function map hands to each; the variable \<open>results\<close> it pushes to is the second
  component of the state.
  \<open>function(value, index, list) { results.push(callback.call(context, value, index, list)); }\<close>
\<close>

definition map_fn :: "'s jv \<Rightarrow> 's jv \<Rightarrow> ('s \<times> val list) jsfun" where
  "map_fn callback context this args st =
     (case st of (s, results) \<Rightarrow>
        (case call callback (recv_of context) [param args 0, param args 1, param args 2] s of
           (s', Inl t) \<Rightarrow> ((s', results), Inl t)
         | (s', Inr r) \<Rightarrow> ((s', results @ [r]), Inr Undefined)))"

definition map_fallback :: "host \<Rightarrow> val \<Rightarrow> 's jv \<Rightarrow> 's jv \<Rightarrow> 's \<Rightarrow> 's \<times> (thrown + val)" where
  "map_fallback h enumerable callback context s =
     (case each h enumerable (F (map_fn callback context)) (V Undefined) (s, []) of
        ((s', results), Inl t) \<Rightarrow> (s', Inl t)
      | ((s', results), Inr e) \<Rightarrow> (s', Inr (Arr results)))"

definition map_js :: "host \<Rightarrow> val \<Rightarrow> 's jv \<Rightarrow> 's jv \<Rightarrow> 's \<Rightarrow> 's \<times> (thrown + val)" where
  "map_js h enumerable callback context s =
     (if has_map h \<and> nullish enumerable then (s, Inl TypeError)
      else if has_map h \<and> isArray enumerable then native_map enumerable callback context s
      else map_fallback h enumerable callback context s)"

text \<open>
  \<open>function(value, index, list) {
     if (callback.call(context, value, index, list)) {
       if (pushIndex) results.push([index, value]); else results.push(value); } }\<close>
\<close>

definition filter_fn :: "bool \<Rightarrow> 's jv \<Rightarrow> 's jv \<Rightarrow> ('s \<times> val list) jsfun" where
  "filter_fn pushIndex callback context this args st =
     (case st of (s, results) \<Rightarrow>
        (case call callback (recv_of context) [param args 0, param args 1, param args 2] s of
           (s', Inl t) \<Rightarrow> ((s', results), Inl t)
         | (s', Inr r) \<Rightarrow>
             (if truthy r
              then (if pushIndex
                    then ((s', results @ [Arr [param args 1, param args 0]]), Inr Undefined)
                    else ((s', results @ [param args 0]), Inr Undefined))
              else ((s', results), Inr Undefined))))"

definition filter_fallback :: "host \<Rightarrow> val \<Rightarrow> 's jv \<Rightarrow> 's jv \<Rightarrow> 's \<Rightarrow> 's \<times> (thrown + val)" where
  "filter_fallback h enumerable callback context s =
     (let pushIndex = \<not> isArray enumerable in
      case each h enumerable (F (filter_fn pushIndex callback context)) (V Undefined) (s, []) of
        ((s', results), Inl t) \<Rightarrow> (s', Inl t)
      | ((s', results), Inr e) \<Rightarrow> (s', Inr (Arr results)))"

definition filter_js :: "host \<Rightarrow> val \<Rightarrow> 's jv \<Rightarrow> 's jv \<Rightarrow> 's \<Rightarrow> 's \<times> (thrown + val)" where
  "filter_js h enumerable callback context s =
     (if has_filter h \<and> nullish enumerable then (s, Inl TypeError)
      else if has_filter h \<and> isArray enumerable then native_filter enumerable callback context s
      else filter_fallback h enumerable callback context s)"

text \<open>\<open>function() { return !callback.apply(context, arguments); }\<close>\<close>

definition negated :: "'s jv \<Rightarrow> 's jv \<Rightarrow> 's jsfun" where
  "negated callback context this args s =
     (case call callback (recv_of context) args s of
        (s', Inl t) \<Rightarrow> (s', Inl t)
      | (s', Inr r) \<Rightarrow> (s', Inr (Bool (\<not> truthy r))))"

text \<open>
  reject calls \<open>this.filter(enumerable, <negated callback>, context)\<close>: the filter it runs is
  the one its receiver has. \<open>reject_with\<close> takes that method; \<open>reject\<close> is the call
  \<open>turing.enumerable.reject(...)\<close>, whose receiver is the module.
\<close>

definition reject_with ::
  "(val \<Rightarrow> 's jv \<Rightarrow> 's jv \<Rightarrow> 'st \<Rightarrow> 'st \<times> (thrown + val)) \<Rightarrow> val \<Rightarrow> 's jv \<Rightarrow> 's jv \<Rightarrow> 'st \<Rightarrow> 'st \<times> (thrown + val)" where
  "reject_with this_filter enumerable callback context st =
     this_filter enumerable (F (negated callback context)) context st"

definition reject :: "host \<Rightarrow> val \<Rightarrow> 's jv \<Rightarrow> 's jv \<Rightarrow> 's \<Rightarrow> 's \<times> (thrown + val)" where
  "reject h = reject_with (filter_js h)"

text \<open>
  \<open>function(value, index, list) {
     if (callback.call(context, value, index, list)) { result = value; throw Break; } }\<close>
\<close>

definition detect_fn :: "'s jv \<Rightarrow> 's jv \<Rightarrow> ('s \<times> val) jsfun" where
  "detect_fn callback context this args st =
     (case st of (s, result) \<Rightarrow>
        (case call callback (recv_of context) [param args 0, param args 1, param args 2] s of
           (s', Inl t) \<Rightarrow> ((s', result), Inl t)
         | (s', Inr r) \<Rightarrow>
             (if truthy r then ((s', param args 0), Inl Break)
              else ((s', result), Inr Undefined))))"

definition detect :: "host \<Rightarrow> val \<Rightarrow> 's jv \<Rightarrow> 's jv \<Rightarrow> 's \<Rightarrow> 's \<times> (thrown + val)" where
  "detect h enumerable callback context s =
     (case each h enumerable (F (detect_fn callback context)) (V Undefined) (s, Undefined) of
        ((s', result), Inl t) \<Rightarrow> (s', Inl t)
      | ((s', result), Inr e) \<Rightarrow> (s', Inr result))"

text \<open>
  Modelled from the spec: \<open>global.bind\<close> belongs to turing.core, which is not among the
  sources; the spec calls it the adapter that wraps the callback so that it runs with the
  context as receiver.
\<close>

definition bind :: "'s jv \<Rightarrow> 's jv \<Rightarrow> 's jsfun" where
  "bind callback context this args s = call callback (recv_of context) args s"

text \<open>
  The host's \<open>Array.prototype.reduce\<close> with an initial value, on a dense array: a TypeError
  when the callback is not callable, then \<open>acc = callback(acc, element, index, array)\<close>
  per element, with undefined as receiver.
\<close>

fun reduce_loop :: "'s jv \<Rightarrow> val \<Rightarrow> val list \<Rightarrow> nat \<Rightarrow> val \<Rightarrow> 's \<Rightarrow> 's \<times> (thrown + val)" where
  "reduce_loop callback arr [] i acc s = (s, Inr acc)"
| "reduce_loop callback arr (x # xs) i acc s =
     (case call callback (RVal Undefined) [acc, x, Num (int i), arr] s of
        (s', Inl t) \<Rightarrow> (s', Inl t)
      | (s', Inr r) \<Rightarrow> reduce_loop callback arr xs (Suc i) r s')"

definition native_reduce :: "val \<Rightarrow> 's jv \<Rightarrow> val \<Rightarrow> 's \<Rightarrow> 's \<times> (thrown + val)" where
  "native_reduce arr callback initial s =
     (if is_callable callback then reduce_loop callback arr (indexed_elems arr) 0 initial s
      else (s, Inl TypeError))"

text \<open>
  \<open>function(value, index, list) { memo = callback.call(context, memo, value, index, list); }\<close>
\<close>

definition reduce_fn :: "'s jv \<Rightarrow> 's jv \<Rightarrow> ('s \<times> val) jsfun" where
  "reduce_fn callback context this args st =
     (case st of (s, memo) \<Rightarrow>
        (case call callback (recv_of context) [memo, param args 0, param args 1, param args 2] s of
           (s', Inl t) \<Rightarrow> ((s', memo), Inl t)
         | (s', Inr r) \<Rightarrow> ((s', r), Inr Undefined)))"

definition reduce_fallback :: "host \<Rightarrow> val \<Rightarrow> val \<Rightarrow> 's jv \<Rightarrow> 's jv \<Rightarrow> 's \<Rightarrow> 's \<times> (thrown + val)" where
  "reduce_fallback h enumerable memo callback context s =
     (case each h enumerable (F (reduce_fn callback context)) (V Undefined) (s, memo) of
        ((s', memo'), Inl t) \<Rightarrow> (s', Inl t)
      | ((s', memo'), Inr e) \<Rightarrow> (s', Inr memo'))"

definition reduce :: "host \<Rightarrow> val \<Rightarrow> val \<Rightarrow> 's jv \<Rightarrow> 's jv \<Rightarrow> 's \<Rightarrow> 's \<times> (thrown + val)" where
  "reduce h enumerable memo callback context s =
     (if has_reduce h \<and> nullish enumerable then (s, Inl TypeError)
      else if has_reduce h \<and> isArray enumerable
      then native_reduce enumerable (F (bind callback context)) memo s
      else reduce_fallback h enumerable memo callback context s)"

section \<open>some, all, include\<close>

text \<open>\<open>identity: function(value) { return value; }\<close> and \<open>callback || identity\<close>.\<close>

definition identity :: "'s jsfun" where
  "identity this args s = (s, Inr (param args 0))"

fun or_identity :: "'s jv \<Rightarrow> 's jv" where
  "or_identity (F f) = F f"
| "or_identity (V v) = (if truthy v then V v else F identity)"

text \<open>
  The host's \<open>Array.prototype.some\<close> and \<open>every\<close> on a dense array: a TypeError when
  the callback is not callable; the result is a Boolean.
\<close>

fun some_loop :: "'s jv \<Rightarrow> recv \<Rightarrow> val \<Rightarrow> val list \<Rightarrow> nat \<Rightarrow> 's \<Rightarrow> 's \<times> (thrown + val)" where
  "some_loop callback context arr [] i s = (s, Inr (Bool False))"
| "some_loop callback context arr (x # xs) i s =
     (case call callback context [x, Num (int i), arr] s of
        (s', Inl t) \<Rightarrow> (s', Inl t)
      | (s', Inr r) \<Rightarrow>
          (if truthy r then (s', Inr (Bool True))
           else some_loop callback context arr xs (Suc i) s'))"

definition native_some :: "val \<Rightarrow> 's jv \<Rightarrow> 's jv \<Rightarrow> 's \<Rightarrow> 's \<times> (thrown + val)" where
  "native_some arr callback context s =
     (if is_callable callback
      then some_loop callback (recv_of context) arr (indexed_elems arr) 0 s
      else (s, Inl TypeError))"

fun every_loop :: "'s jv \<Rightarrow> recv \<Rightarrow> val \<Rightarrow> val list \<Rightarrow> nat \<Rightarrow> 's \<Rightarrow> 's \<times> (thrown + val)" where
  "every_loop callback context arr [] i s = (s, Inr (Bool True))"
| "every_loop callback context arr (x # xs) i s =
     (case call callback context [x, Num (int i), arr] s of
        (s', Inl t) \<Rightarrow> (s', Inl t)
      | (s', Inr r) \<Rightarrow>
          (if truthy r then every_loop callback context arr xs (Suc i) s'
           else (s', Inr (Bool False))))"

definition native_every :: "val \<Rightarrow> 's jv \<Rightarrow> 's jv \<Rightarrow> 's \<Rightarrow> 's \<times> (thrown + val)" where
  "native_every arr callback context s =
     (if is_callable callback
      then every_loop callback (recv_of context) arr (indexed_elems arr) 0 s
      else (s, Inl TypeError))"

text \<open>
  \<open>function(value, index, list) {
     if (result = callback.call(context, value, index, list)) throw Break; }\<close>
\<close>

definition some_fn :: "'s jv \<Rightarrow> 's jv \<Rightarrow> ('s \<times> val) jsfun" where
  "some_fn callback context this args st =
     (case st of (s, result) \<Rightarrow>
        (case call callback (recv_of context) [param args 0, param args 1, param args 2] s of
           (s', Inl t) \<Rightarrow> ((s', result), Inl t)
         | (s', Inr r) \<Rightarrow> ((s', r), if truthy r then Inl Break else Inr Undefined)))"

definition some_fallback :: "host \<Rightarrow> val \<Rightarrow> 's jv \<Rightarrow> 's jv \<Rightarrow> 's \<Rightarrow> 's \<times> (thrown + val)" where
  "some_fallback h enumerable callback context s =
     (case each h enumerable (F (some_fn callback context)) (V Undefined) (s, Bool False) of
        ((s', result), Inl t) \<Rightarrow> (s', Inl t)
      | ((s', result), Inr e) \<Rightarrow> (s', Inr result))"

definition some :: "host \<Rightarrow> val \<Rightarrow> 's jv \<Rightarrow> 's jv \<Rightarrow> 's \<Rightarrow> 's \<times> (thrown + val)" where
  "some h enumerable callback0 context s =
     (let callback = or_identity callback0 in
      if has_some h \<and> nullish enumerable then (s, Inl TypeError)
      else if has_some h \<and> isArray enumerable then native_some enumerable callback context s
      else some_fallback h enumerable callback context s)"

text \<open>
  \<open>function(value, index, list) {
     if (!(result = result && callback.call(context, value, index, list))) throw Break; }\<close>
\<close>

definition all_fn :: "'s jv \<Rightarrow> 's jv \<Rightarrow> ('s \<times> val) jsfun" where
  "all_fn callback context this args st =
     (case st of (s, result) \<Rightarrow>
        (if truthy result
         then (case call callback (recv_of context) [param args 0, param args 1, param args 2] s of
                 (s', Inl t) \<Rightarrow> ((s', result), Inl t)
               | (s', Inr r) \<Rightarrow> ((s', r), if truthy r then Inr Undefined else Inl Break))
         else ((s, result), Inl Break)))"

definition all_fallback :: "host \<Rightarrow> val \<Rightarrow> 's jv \<Rightarrow> 's jv \<Rightarrow> 's \<Rightarrow> 's \<times> (thrown + val)" where
  "all_fallback h enumerable callback context s =
     (case each h enumerable (F (all_fn callback context)) (V Undefined) (s, Bool True) of
        ((s', result), Inl t) \<Rightarrow> (s', Inl t)
      | ((s', result), Inr e) \<Rightarrow> (s', Inr result))"

definition all :: "host \<Rightarrow> val \<Rightarrow> 's jv \<Rightarrow> 's jv \<Rightarrow> 's \<Rightarrow> 's \<times> (thrown + val)" where
  "all h enumerable callback0 context s =
     (let callback = or_identity callback0 in
      if has_every h \<and> nullish enumerable then (s, Inl TypeError)
      else if has_every h \<and> isArray enumerable then native_every enumerable callback context s
      else all_fallback h enumerable callback context s)"

text \<open>
  include compares with \<open>===\<close>, which on objects is identity; the values here carry no
  identity, so the comparison is a parameter \<open>seq\<close> of the model. The host's
  \<open>indexOf(target) != -1\<close> on a dense array uses the same comparison.
\<close>

fun indexOf_found :: "(val \<Rightarrow> val \<Rightarrow> bool) \<Rightarrow> val list \<Rightarrow> val \<Rightarrow> bool" where
  "indexOf_found seq [] target = False"
| "indexOf_found seq (x # xs) target = (if seq x target then True else indexOf_found seq xs target)"

text \<open>
  \<open>function(value, key) { if (found = value === target) throw Break; }\<close>
\<close>

definition include_fn :: "(val \<Rightarrow> val \<Rightarrow> bool) \<Rightarrow> val \<Rightarrow> bool jsfun" where
  "include_fn seq target this args found =
     (if seq (param args 0) target then (True, Inl Break) else (False, Inr Undefined))"

definition include_fallback :: "host \<Rightarrow> (val \<Rightarrow> val \<Rightarrow> bool) \<Rightarrow> val \<Rightarrow> val \<Rightarrow> thrown + val" where
  "include_fallback h seq enumerable target =
     (case each h enumerable (F (include_fn seq target)) (V Undefined) False of
        (found, Inl t) \<Rightarrow> Inl t
      | (found, Inr e) \<Rightarrow> Inr (Bool found))"

definition include_js :: "host \<Rightarrow> (val \<Rightarrow> val \<Rightarrow> bool) \<Rightarrow> val \<Rightarrow> val \<Rightarrow> thrown + val" where
  "include_js h seq enumerable target =
     (if has_indexOf h \<and> nullish enumerable then Inl TypeError
      else if has_indexOf h \<and> isArray enumerable
      then Inr (Bool (indexOf_found seq (indexed_elems enumerable) target))
      else include_fallback h seq enumerable target)"

section \<open>The chain wrapper\<close>

text \<open>
  The functions held by the properties of \<open>global.enumerable\<close>, and the property table
  after the alias assignments (\<open>select = filter\<close>, ..., \<open>every = all\<close>): an alias holds the
  very function its canonical name holds.
\<close>

datatype impl =
    EachFn | MapFn | FilterFn | RejectFn | DetectFn | ReduceFn | FlattenFn | TailFn
  | InvokeFn | PluckFn | SomeFn | AllFn | IncludeFn | ChainFn | IdentityFn

definition enumerable_props :: "(string \<times> impl) list" where
  "enumerable_props =
     [(''each'', EachFn), (''map'', MapFn), (''filter'', FilterFn), (''reject'', RejectFn),
      (''detect'', DetectFn), (''reduce'', ReduceFn), (''flatten'', FlattenFn),
      (''tail'', TailFn), (''invoke'', InvokeFn), (''pluck'', PluckFn), (''some'', SomeFn),
      (''all'', AllFn), (''include'', IncludeFn), (''chain'', ChainFn),
      (''identity'', IdentityFn),
      (''select'', FilterFn), (''collect'', MapFn), (''inject'', ReduceFn),
      (''rest'', TailFn), (''any'', SomeFn), (''every'', AllFn)]"

definition chainableMethods :: "string list" where
  "chainableMethods =
     [''map'', ''collect'', ''detect'', ''filter'', ''reduce'', ''each'',
      ''tail'', ''rest'', ''reject'', ''pluck'', ''any'', ''some'', ''all'']"

text \<open>
  The methods of \<open>Chainer.prototype\<close> are installed by each itself:
  \<open>global.enumerable.each(global.chainableMethods, function(methodName) {
       var method = global.enumerable[methodName];
       global.enumerable.Chainer.prototype[methodName] = function() { ... } })\<close>
  The state of that traversal is the prototype: the name of each installed method with the
  function \<open>method\<close> it wraps.
\<close>

definition install_fn :: "((string \<times> impl option) list) jsfun" where
  "install_fn this args proto =
     (case param args 0 of
        Str methodName \<Rightarrow>
          (proto @ [(methodName, map_of enumerable_props methodName)], Inr Undefined)
      | _ \<Rightarrow> (proto, Inr Undefined))"

definition chainer_prototype :: "host \<Rightarrow> (string \<times> impl option) list" where
  "chainer_prototype h =
     fst (each h (Arr (map Str chainableMethods)) (F install_fn) (V Undefined) [])"

text \<open>
  A Chainer is its field \<open>results\<close>; the state of a chained call is that field together
  with the state of the callbacks. \<open>chain\<close> builds the wrapper, \<open>values\<close> reads it.
\<close>

definition chain :: "val \<Rightarrow> 's \<Rightarrow> val \<times> 's" where
  "chain enumerable s = (enumerable, s)"

definition values_js :: "val \<times> 's \<Rightarrow> val" where
  "values_js st = fst st"

text \<open>
  A method as the wrapper applies it: it gets the first argument (the results), the
  caller's arguments, and as its receiver the Chainer, whose field it can reach.
\<close>

type_synonym 's js_method = "val \<Rightarrow> 's jv list \<Rightarrow> val \<times> 's \<Rightarrow> (val \<times> 's) \<times> (thrown + val)"

text \<open>
  \<open>function() {
     var args = Array.prototype.slice.call(arguments);
     args.unshift(this.results);
     this.results = method.apply(this, args);
     return this; }\<close>
\<close>

definition chainer_method :: "'s js_method \<Rightarrow> 's jv list \<Rightarrow> val \<times> 's \<Rightarrow> (val \<times> 's) \<times> (thrown + val)" where
  "chainer_method method args st =
     (case method (fst st) args st of
        (st', Inl t) \<Rightarrow> (st', Inl t)
      | ((results', s'), Inr r) \<Rightarrow> ((r, s'), Inr ChainerRef))"

text \<open>A function of the module that never looks at its receiver, as a method.\<close>

definition no_this ::
  "(val \<Rightarrow> 's jv \<Rightarrow> 's jv \<Rightarrow> 's \<Rightarrow> 's \<times> (thrown + val)) \<Rightarrow> 's js_method" where
  "no_this f enumerable args st =
     (case f enumerable (jv_param args 0) (jv_param args 1) (snd st) of
        (s', r) \<Rightarrow> ((fst st, s'), r))"

text \<open>
  reject applied by the wrapper has the Chainer as receiver: its \<open>this.filter\<close> is
  \<open>Chainer.prototype.filter\<close>, the wrapper around filter.
\<close>

definition chainer_filter :: "host \<Rightarrow> val \<Rightarrow> 's jv \<Rightarrow> 's jv \<Rightarrow> val \<times> 's \<Rightarrow> (val \<times> 's) \<times> (thrown + val)" where
  "chainer_filter h enumerable callback context st =
     chainer_method (no_this (filter_js h)) [V enumerable, callback, context] st"

definition reject_method :: "host \<Rightarrow> 's js_method" where
  "reject_method h enumerable args st =
     reject_with (chainer_filter h) enumerable (jv_param args 0) (jv_param args 1) st"

text \<open>
  The wrapped functions as methods. reduce, tail and pluck are wrapped by the same
  \<open>chainer_method\<close>; their own argument conversions are not part of this development,
  so a call of them has no result here (\<open>None\<close>).
\<close>

fun method_of :: "host \<Rightarrow> impl \<Rightarrow> 's js_method option" where
  "method_of h EachFn = Some (no_this (each h))"
| "method_of h MapFn = Some (no_this (map_js h))"
| "method_of h FilterFn = Some (no_this (filter_js h))"
| "method_of h DetectFn = Some (no_this (detect h))"
| "method_of h SomeFn = Some (no_this (some h))"
| "method_of h AllFn = Some (no_this (all h))"
| "method_of h RejectFn = Some (reject_method h)"
| "method_of h i = None"

text \<open>
  \<open>wrapper.name(args...)\<close>: a TypeError when the Chainer has no such method.
\<close>

definition chainer_call ::
  "host \<Rightarrow> string \<Rightarrow> 's jv list \<Rightarrow> val \<times> 's \<Rightarrow> ((val \<times> 's) \<times> (thrown + val)) option" where
  "chainer_call h name args st =
     (case map_of (chainer_prototype h) name of
        None \<Rightarrow> Some (st, Inl TypeError)
      | Some None \<Rightarrow> Some (st, Inl TypeError)
      | Some (Some i) \<Rightarrow>
          (case method_of h i of
             None \<Rightarrow> None
           | Some m \<Rightarrow> Some (chainer_method m args st)))"

text \<open>Callbacks of the examples: \<open>n % 2 === 0\<close>, \<open>n * 10\<close>, and one that throws a string.\<close>

definition is_even :: "'s jsfun" where
  "is_even this args s =
     (case param args 0 of Num n \<Rightarrow> (s, Inr (Bool (n mod 2 = 0))) | _ \<Rightarrow> (s, Inr (Bool False)))"

definition times_ten :: "'s jsfun" where
  "times_ten this args s =
     (case param args 0 of Num n \<Rightarrow> (s, Inr (Num (n * 10))) | _ \<Rightarrow> (s, Inr Undefined))"

definition throws_object_string :: "'s jsfun" where
  "throws_object_string this args s = (s, Inl (Thrown (Str ''[object Object]'')))"

definition returns_arg :: "nat \<Rightarrow> 's jsfun" where
  "returns_arg i this args s = (s, Inr (param args i))"

text \<open>
  A callback with the calls it receives written to a log: the receiver and the arguments
  of every call, in order.
\<close>

fun traced :: "'s jv \<Rightarrow> ('s \<times> (recv \<times> val list) list) jv" where
  "traced (F f) =
     F (\<lambda>this args st.
          case f this args (fst st) of
            (s', r) \<Rightarrow> ((s', snd st @ [(this, args)]), r))"
| "traced (V v) = V v"

section \<open>Traversal order\<close>

text \<open>
  The (index or key, value) pairs of a collection in the order each visits them: the
  indexed elements when the collection has a numeric length, its own properties otherwise.
\<close>

fun indexed_from :: "nat \<Rightarrow> val list \<Rightarrow> (val \<times> val) list" where
  "indexed_from i [] = []"
| "indexed_from i (x # xs) = (Num (int i), x) # indexed_from (Suc i) xs"

definition entries :: "val \<Rightarrow> (val \<times> val) list" where
  "entries e =
     (if isNumber (length_of e) then indexed_from 0 (indexed_elems e)
      else map (\<lambda>(k, v). (Str k, v)) (own_props e))"

text \<open>
  One call \<open>callback(value, key, collection)\<close> per pair, in order, until a call throws.
  \<open>run_entries\<close> drops the results, \<open>visit\<close> collects them.
\<close>

fun run_entries :: "'s jv \<Rightarrow> recv \<Rightarrow> val \<Rightarrow> (val \<times> val) list \<Rightarrow> 's \<Rightarrow> 's \<times> (thrown + unit)" where
  "run_entries callback r e [] s = (s, Inr ())"
| "run_entries callback r e ((k, v) # es) s =
     (case call callback r [v, k, e] s of
        (s', Inl t) \<Rightarrow> (s', Inl t)
      | (s', Inr x) \<Rightarrow> run_entries callback r e es s')"

fun visit :: "'s jv \<Rightarrow> recv \<Rightarrow> val \<Rightarrow> (val \<times> val) list \<Rightarrow> 's \<Rightarrow> 's \<times> (thrown + val list)" where
  "visit callback r e [] s = (s, Inr [])"
| "visit callback r e ((k, v) # es) s =
     (case call callback r [v, k, e] s of
        (s', Inl t) \<Rightarrow> (s', Inl t)
      | (s', Inr x) \<Rightarrow>
          (case visit callback r e es s' of
             (s'', Inl t) \<Rightarrow> (s'', Inl t)
           | (s'', Inr xs) \<Rightarrow> (s'', Inr (x # xs))))"

text \<open>
  What filter is to collect, given the pairs and the callback's results on them: for
  every pair with a truthy result the bare value, or the pair \<open>[key, value]\<close>.
\<close>

fun kept :: "bool \<Rightarrow> (val \<times> val) list \<Rightarrow> val list \<Rightarrow> val list" where
  "kept bare ((k, v) # es) (r # rs) =
     (if truthy r then (if bare then v else Arr [k, v]) # kept bare es rs
      else kept bare es rs)"
| "kept bare es rs = []"

text \<open>A function that never looks at its receiver.\<close>

definition this_free :: "'s jsfun \<Rightarrow> bool" where
  "this_free g = (\<forall>r r' args s. g r args s = g r' args s)"

section \<open>flatten, over a store\<close>

text \<open>
  Whether flatten changes an array, and whether the array it returns is one it was given,
  cannot be seen on the values above, which carry no identity. For flatten the arrays live
  in a store: a list of cells, the address of a cell being its index; a stored value is a
  primitive or a reference to a cell; a cell is a true Array or some other object.
\<close>

datatype sval = SUndefined | SNull | SBool bool | SNum int | SStr string | SRef nat

datatype cell = ArrayCell "sval list" | OtherCell

type_synonym store = "cell list"


fun cell_elems :: "cell \<Rightarrow> sval list" where
  "cell_elems (ArrayCell xs) = xs"
| "cell_elems OtherCell = []"


definition elems :: "store \<Rightarrow> nat \<Rightarrow> sval list" where
  "elems st a = (if a < length st then cell_elems (st ! a) else [])"













text \<open>
  A callback that throws neither Break nor anything the catch clause of each takes for it.
\<close>

definition throws_no_Break :: "'s jv \<Rightarrow> bool" where
  "throws_no_Break callback =
     (\<forall>r args s s' t. call callback r args s = (s', Inl t) \<longrightarrow> loose_neq_Break t)"

section \<open>Properties of each\<close>

lemma each_swallows_Break:
  "each_body h enumerable callback context s = (s', Inl Break) \<Longrightarrow>
   each h enumerable callback context s = (s', Inr enumerable)"
  by (simp add: each_def)

lemma each_rethrows:
  "each_body h enumerable callback context s = (s', Inl t) \<Longrightarrow> loose_neq_Break t \<Longrightarrow>
   each h enumerable callback context s = (s', Inl t)"
  by (simp add: each_def)

lemma each_returns_enumerable:
  "each h enumerable callback context s = (s', Inr r) \<Longrightarrow> r = enumerable"
  by (auto simp: each_def split: prod.splits sum.splits if_splits)

text \<open>
  C1. each is to swallow the Break sentinel and to re-raise every other thrown value
  unchanged. The catch clause compares with \<open>!=\<close>, so the string \<open>[object Object]\<close>,
  which is not Break, is swallowed too: on the array \<open>[1]\<close> with a callback that throws
  that string, each returns the array normally, on every host and with every context.
\<close>

theorem each_swallows_object_string:
  "each h (Arr [Num 1]) (F throws_object_string) context s = (s, Inr (Arr [Num 1]))"
  by (simp add: each_def each_body_def each_branch_def native_forEach_def throws_object_string_def)

text \<open>
  C6, as the claim states it, fails for null: each(null, f) throws the TypeError of the
  property read instead of returning.
\<close>

theorem each_null_throws:
  "each modern_host Null (F (returns_arg 0)) (V Undefined) (0::nat) = (0, Inl TypeError)"
  by (simp add: each_def each_body_def)

text \<open>
  C6, amended. For every value other than null and undefined that has neither a numeric
  length nor own enumerable properties (a number, a boolean, an empty object), each calls
  the callback not once (the state of an arbitrary callback is unchanged) and returns the
  value; for null and undefined it throws a TypeError.
\<close>

theorem each_malformed:
  "(\<not> nullish v \<and> \<not> isNumber (length_of v) \<and> own_props v = [] \<longrightarrow>
      each h v callback context s = (s, Inr v)) \<and>
   (nullish v \<longrightarrow> each h v callback context s = (s, Inl TypeError))"
proof -
  have "each_branch h v = KeyLoop" if "\<not> isNumber (length_of v)"
    using that by (cases v) (auto simp: each_branch_def)
  then show ?thesis
    by (auto simp: each_def each_body_def)
qed

theorem each_malformed_witness:
  "each modern_host (Num 5) (F (returns_arg 0)) (V Undefined) (0::nat) = (0, Inr (Num 5)) \<and>
   each modern_host (Obj []) (F (returns_arg 0)) (V Undefined) (0::nat) = (0, Inr (Obj [])) \<and>
   each modern_host Undefined (F (returns_arg 0)) (V Undefined) (0::nat) = (0, Inl TypeError)"
  using each_malformed [of "Num 5" modern_host "F (returns_arg 0)" "V Undefined" "0::nat"]
    each_malformed [of "Obj []" modern_host "F (returns_arg 0)" "V Undefined" "0::nat"]
    each_malformed [of "Undefined" modern_host "F (returns_arg 0)" "V Undefined" "0::nat"]
  by simp

lemma index_loop_traced:
  "index_loop (traced callback) e xs i (s, log0) = ((s', log), r) \<Longrightarrow>
   \<exists>new. log = log0 @ new \<and>
     (\<forall>c \<in> set new. \<exists>j < length xs. c = (RVal e, [xs ! j, Num (int (i + j)), e]))"
proof (induction xs arbitrary: i s log0)
  case Nil
  then show ?case by simp
next
  case (Cons x xs)
  show ?case
  proof (cases callback)
    case (V v)
    with Cons.prems show ?thesis by simp
  next
    case (F f)
    obtain s1 r1 where f: "f (RVal e) [x, Num (int i), e] s = (s1, r1)"
      by (cases "f (RVal e) [x, Num (int i), e] s")
    show ?thesis
    proof (cases r1)
      case (Inl t)
      with Cons.prems F f have "log = log0 @ [(RVal e, [x, Num (int i), e])]" by simp
      then show ?thesis by force
    next
      case (Inr u)
      with Cons.prems F f
      have "index_loop (traced callback) e xs (Suc i) (s1, log0 @ [(RVal e, [x, Num (int i), e])])
              = ((s', log), r)" by simp
      from Cons.IH [OF this] obtain new where
        new: "log = (log0 @ [(RVal e, [x, Num (int i), e])]) @ new"
        and all: "\<forall>c \<in> set new. \<exists>j < length xs. c = (RVal e, [xs ! j, Num (int (Suc i + j)), e])"
        by blast
      have "\<forall>c \<in> set ((RVal e, [x, Num (int i), e]) # new).
              \<exists>j < length (x # xs). c = (RVal e, [(x # xs) ! j, Num (int (i + j)), e])"
      proof
        fix c assume "c \<in> set ((RVal e, [x, Num (int i), e]) # new)"
        then consider "c = (RVal e, [x, Num (int i), e])" | "c \<in> set new" by auto
        then show "\<exists>j < length (x # xs). c = (RVal e, [(x # xs) ! j, Num (int (i + j)), e])"
        proof cases
          case 1
          then show ?thesis by (intro exI [of _ 0]) simp
        next
          case 2
          with all obtain j where "j < length xs" "c = (RVal e, [xs ! j, Num (int (Suc i + j)), e])"
            by blast
          then show ?thesis by (intro exI [of _ "Suc j"]) simp
        qed
      qed
      with new show ?thesis by (intro exI [of _ "(RVal e, [x, Num (int i), e]) # new"]) simp
    qed
  qed
qed

lemma key_loop_traced:
  "key_loop (traced callback) ctx e kvs (s, log0) = ((s', log), r) \<Longrightarrow>
   \<exists>new. log = log0 @ new \<and>
     (\<forall>c \<in> set new. \<exists>(k, v) \<in> set kvs. c = (ctx, [v, Str k, e]))"
proof (induction kvs arbitrary: s log0)
  case Nil
  then show ?case by simp
next
  case (Cons kv kvs)
  obtain k v where kv: "kv = (k, v)" by (cases kv)
  show ?case
  proof (cases callback)
    case (V w)
    with Cons.prems kv show ?thesis by simp
  next
    case (F f)
    obtain s1 r1 where f: "f ctx [v, Str k, e] s = (s1, r1)"
      by (cases "f ctx [v, Str k, e] s")
    show ?thesis
    proof (cases r1)
      case (Inl t)
      with Cons.prems F f kv have "log = log0 @ [(ctx, [v, Str k, e])]" by simp
      with kv show ?thesis by force
    next
      case (Inr u)
      with Cons.prems F f kv
      have "key_loop (traced callback) ctx e kvs (s1, log0 @ [(ctx, [v, Str k, e])])
              = ((s', log), r)" by simp
      from Cons.IH [OF this] obtain new where
        new: "log = (log0 @ [(ctx, [v, Str k, e])]) @ new"
        and all: "\<forall>c \<in> set new. \<exists>(k, v) \<in> set kvs. c = (ctx, [v, Str k, e])"
        by blast
      have "\<forall>c \<in> set ((ctx, [v, Str k, e]) # new).
              \<exists>(k, v) \<in> set (kv # kvs). c = (ctx, [v, Str k, e])"
        using all kv by auto
      with new show ?thesis by (intro exI [of _ "(ctx, [v, Str k, e]) # new"]) simp
    qed
  qed
qed

text \<open>
  C7. With the calls written to a log: in the index branch every call of the callback has
  the collection itself as receiver, whatever the context, and the arguments
  (element, index, collection); in the keyed branch every call has the context as receiver
  and the arguments (value, key, collection).
\<close>

theorem each_receiver:
  assumes "\<not> nullish e"
    and "each h e (traced callback) context (s, []) = ((s', log), r)"
  shows "(each_branch h e = IndexLoop \<longrightarrow>
            (\<forall>c \<in> set log. \<exists>j < length (indexed_elems e).
               c = (RVal e, [indexed_elems e ! j, Num (int j), e]))) \<and>
         (each_branch h e = KeyLoop \<longrightarrow>
            (\<forall>c \<in> set log. \<exists>(k, v) \<in> set (own_props e).
               c = (recv_of context, [v, Str k, e])))"
proof (intro conjI impI)
  assume b: "each_branch h e = IndexLoop"
  obtain st1 r1 where body: "each_body h e (traced callback) context (s, []) = (st1, r1)"
    by (cases "each_body h e (traced callback) context (s, [])")
  with assms(2) have "st1 = (s', log)"
    by (auto simp: each_def split: sum.splits if_splits)
  with body b assms(1)
  have "index_loop (traced callback) e (indexed_elems e) 0 (s, []) = ((s', log), r1)"
    by (simp add: each_body_def)
  from index_loop_traced [OF this]
  show "\<forall>c \<in> set log. \<exists>j < length (indexed_elems e).
          c = (RVal e, [indexed_elems e ! j, Num (int j), e])" by simp
next
  assume b: "each_branch h e = KeyLoop"
  obtain st1 r1 where body: "each_body h e (traced callback) context (s, []) = (st1, r1)"
    by (cases "each_body h e (traced callback) context (s, [])")
  with assms(2) have "st1 = (s', log)"
    by (auto simp: each_def split: sum.splits if_splits)
  with body b assms(1)
  have "key_loop (traced callback) (recv_of context) e (own_props e) (s, []) = ((s', log), r1)"
    by (simp add: each_body_def)
  from key_loop_traced [OF this]
  show "\<forall>c \<in> set log. \<exists>(k, v) \<in> set (own_props e).
          c = (recv_of context, [v, Str k, e])" by simp
qed

theorem each_receiver_witness:
  "each_branch modern_host (ArrayLike [Num 7]) = IndexLoop \<and>
   each modern_host (ArrayLike [Num 7]) (traced (F (returns_arg 0))) (V (Str ''ctx'')) ((), [])
      = (((), [(RVal (ArrayLike [Num 7]), [Num 7, Num 0, ArrayLike [Num 7]])]),
         Inr (ArrayLike [Num 7])) \<and>
   (\<exists>j. j < length (indexed_elems (ArrayLike [Num 7])) \<and>
        (RVal (ArrayLike [Num 7]), [Num 7, Num 0, ArrayLike [Num 7]])
          = (RVal (ArrayLike [Num 7]),
             [indexed_elems (ArrayLike [Num 7]) ! j, Num (int j), ArrayLike [Num 7]])) \<and>
   each_branch modern_host (Obj [(''a'', Num 7)]) = KeyLoop \<and>
   each modern_host (Obj [(''a'', Num 7)]) (traced (F (returns_arg 0))) (V (Str ''ctx'')) ((), [])
      = (((), [(RVal (Str ''ctx''), [Num 7, Str ''a'', Obj [(''a'', Num 7)]])]),
         Inr (Obj [(''a'', Num 7)])) \<and>
   (\<exists>k v. (k, v) \<in> set (own_props (Obj [(''a'', Num 7)])) \<and>
        (RVal (Str ''ctx''), [Num 7, Str ''a'', Obj [(''a'', Num 7)]])
          = (recv_of (V (Str ''ctx'') :: (unit \<times> (recv \<times> val list) list) jv),
             [v, Str k, Obj [(''a'', Num 7)]]))"
proof -
  have b1: "each_branch modern_host (ArrayLike [Num 7]) = IndexLoop"
    by (simp add: each_branch_def modern_host_def)
  have b2: "each_branch modern_host (Obj [(''a'', Num 7)]) = KeyLoop"
    by (simp add: each_branch_def modern_host_def)
  have e1: "each modern_host (ArrayLike [Num 7]) (traced (F (returns_arg 0))) (V (Str ''ctx'')) ((), [])
      = (((), [(RVal (ArrayLike [Num 7]), [Num 7, Num 0, ArrayLike [Num 7]])]),
         Inr (ArrayLike [Num 7]))"
    by (simp add: each_def each_body_def b1 returns_arg_def param_def)
  have e2: "each modern_host (Obj [(''a'', Num 7)]) (traced (F (returns_arg 0))) (V (Str ''ctx'')) ((), [])
      = (((), [(RVal (Str ''ctx''), [Num 7, Str ''a'', Obj [(''a'', Num 7)]])]),
         Inr (Obj [(''a'', Num 7)]))"
    by (simp add: each_def each_body_def b2 returns_arg_def param_def)
  have n1: "\<not> nullish (ArrayLike [Num 7])" by simp
  have n2: "\<not> nullish (Obj [(''a'', Num 7)])" by simp
  from each_receiver [OF n1 e1] b1
  have c1: "\<exists>j. j < length (indexed_elems (ArrayLike [Num 7])) \<and>
        (RVal (ArrayLike [Num 7]), [Num 7, Num 0, ArrayLike [Num 7]])
          = (RVal (ArrayLike [Num 7]),
             [indexed_elems (ArrayLike [Num 7]) ! j, Num (int j), ArrayLike [Num 7]])"
    by simp
  from each_receiver [OF n2 e2] b2
  have c2: "\<exists>k v. (k, v) \<in> set (own_props (Obj [(''a'', Num 7)])) \<and>
        (RVal (Str ''ctx''), [Num 7, Str ''a'', Obj [(''a'', Num 7)]])
          = (recv_of (V (Str ''ctx'') :: (unit \<times> (recv \<times> val list) list) jv),
             [v, Str k, Obj [(''a'', Num 7)]])"
    by simp
  from b1 e1 c1 b2 e2 c2 show ?thesis by blast
qed

section \<open>The chain wrapper's methods\<close>

lemma chainer_prototype_eq:
  "chainer_prototype h =
     [(''map'', Some MapFn), (''collect'', Some MapFn), (''detect'', Some DetectFn),
      (''filter'', Some FilterFn), (''reduce'', Some ReduceFn), (''each'', Some EachFn),
      (''tail'', Some TailFn), (''rest'', Some TailFn), (''reject'', Some RejectFn),
      (''pluck'', Some PluckFn), (''any'', Some SomeFn), (''some'', Some SomeFn),
      (''all'', Some AllFn)]"
  by (cases "has_forEach h")
     (simp_all add: chainer_prototype_def each_def each_body_def each_branch_def
        native_forEach_def install_fn_def param_def enumerable_props_def chainableMethods_def)

text \<open>
  C5, as the claim states it, fails: the alias select is no method of the chain wrapper.
\<close>

theorem select_not_chainable:
  "map_of (chainer_prototype modern_host) ''select'' = None"
  by (simp add: chainer_prototype_eq)

text \<open>
  C5, amended. On every host the chainable methods are exactly map, collect, detect,
  filter, reduce, each, tail, rest, reject, pluck, any, some and all; each wraps the function
  the module holds under the same name; every alias of the module holds the function of
  its canonical name; and the aliases select, inject and every are not chainable.
\<close>

theorem chainable_methods:
  "map fst (chainer_prototype h) =
     [''map'', ''collect'', ''detect'', ''filter'', ''reduce'', ''each'',
      ''tail'', ''rest'', ''reject'', ''pluck'', ''any'', ''some'', ''all''] \<and>
   map snd (chainer_prototype h) = map (map_of enumerable_props) (map fst (chainer_prototype h)) \<and>
   map_of enumerable_props ''collect'' = map_of enumerable_props ''map'' \<and>
   map_of enumerable_props ''rest'' = map_of enumerable_props ''tail'' \<and>
   map_of enumerable_props ''any'' = map_of enumerable_props ''some'' \<and>
   map_of enumerable_props ''select'' = map_of enumerable_props ''filter'' \<and>
   map_of enumerable_props ''inject'' = map_of enumerable_props ''reduce'' \<and>
   map_of enumerable_props ''every'' = map_of enumerable_props ''all'' \<and>
   map_of (chainer_prototype h) ''select'' = None \<and>
   map_of (chainer_prototype h) ''inject'' = None \<and>
   map_of (chainer_prototype h) ''every'' = None"
  by (simp add: chainer_prototype_eq enumerable_props_def)

lemma chainer_method_no_this:
  "chainer_method (no_this f) args (results, s) =
     (case f results (jv_param args 0) (jv_param args 1) s of
        (s', Inl t) \<Rightarrow> ((results, s'), Inl t)
      | (s', Inr r) \<Rightarrow> ((r, s'), Inr ChainerRef))"
  by (simp add: chainer_method_def no_this_def split: prod.splits sum.splits)

lemma filter_not_callable:
  "\<not> nullish e \<Longrightarrow> isArray e \<Longrightarrow> indexed_elems e \<noteq> [] \<Longrightarrow> filter_js h e (V v) context s = (s, Inl TypeError)"
  by (cases e; cases "indexed_elems e")
     (auto simp: filter_js_def native_filter_def filter_fallback_def each_def
      each_body_def each_branch_def native_forEach_def filter_fn_def param_def)

text \<open>
  C4. The wrapper applies a function with the Chainer as receiver. reject reads
  \<open>this.filter\<close>, which then is the wrapper's own filter method: it puts the results in
  front of the arguments once more, so filter receives the array as its callback.
  \<open>chain([1, 2, 3]).reject(isEven)\<close> throws a TypeError on every host and leaves the
  results untouched, where the claim has it store \<open>[1, 3]\<close> and return the wrapper.
\<close>

theorem chain_reject_throws:
  "chainer_call h ''reject'' [F is_even] (chain (Arr [Num 1, Num 2, Num 3]) s)
     = Some ((Arr [Num 1, Num 2, Num 3], s), Inl TypeError)"
proof -
  let ?a = "Arr [Num 1, Num 2, Num 3]"
  have "filter_js h ?a (V ?a) c s = (s, Inl TypeError)" for c
    by (rule filter_not_callable) simp_all
  then have "chainer_filter h ?a cb ctx (?a, s) = ((?a, s), Inl TypeError)" for cb ctx
    by (simp add: chainer_filter_def chainer_method_no_this jv_param_def)
  then have "reject_method h ?a [F is_even] (?a, s) = ((?a, s), Inl TypeError)"
    by (simp add: reject_method_def reject_with_def)
  then have "chainer_method (reject_method h) [F is_even] (?a, s) = ((?a, s), Inl TypeError)"
    by (simp add: chainer_method_def)
  then show ?thesis
    by (simp add: chainer_call_def chainer_prototype_eq chain_def)
qed

text \<open>
  The functions that do not read their receiver are wrapped as the claim says
  (\<open>chainer_method_no_this\<close>), and the chain of the example yields \<open>[20, 40]\<close>.
\<close>

lemma chain_example:
  "(case chainer_call h ''filter'' [F is_even] (chain (Arr [Num 1, Num 2, Num 3, Num 4]) s) of
      Some (st, r) \<Rightarrow> map_option (\<lambda>(st', r'). values_js st') (chainer_call h ''map'' [F times_ten] st))
   = Some (Arr [Num 20, Num 40])"
  apply (cases "has_filter h"; cases "has_map h"; cases "has_forEach h")
  apply (simp_all add: chainer_call_def chainer_prototype_eq chainer_method_no_this chain_def jv_param_def
      filter_js_def native_filter_def filter_fallback_def map_js_def native_map_def map_fallback_def
      each_def each_body_def each_branch_def native_forEach_def filter_fn_def map_fn_def param_def
      is_even_def times_ten_def values_js_def)
  done

section \<open>each as a traversal of the entries\<close>

lemma index_loop_run:
  "index_loop callback e xs i s = run_entries callback (RVal e) e (indexed_from i xs) s"
  by (induction xs arbitrary: i s) (auto split: prod.splits sum.splits)

lemma forEach_loop_run:
  "forEach_loop callback r e xs i s = run_entries callback r e (indexed_from i xs) s"
  by (induction xs arbitrary: i s) (auto split: prod.splits sum.splits)

lemma key_loop_run:
  "key_loop callback r e kvs s = run_entries callback r e (map (\<lambda>(k, v). (Str k, v)) kvs) s"
  by (induction kvs arbitrary: s) (auto split: prod.splits sum.splits)

lemma run_entries_this_free:
  "this_free g \<Longrightarrow> run_entries (F g) r e es s = run_entries (F g) r' e es s"
proof (induction es arbitrary: s)
  case Nil
  then show ?case by simp
next
  case (Cons kv es)
  obtain k v where kv: "kv = (k, v)" by (cases kv)
  from Cons.prems have "g r [v, k, e] s = g r' [v, k, e] s"
    unfolding this_free_def by blast
  with Cons kv show ?case by (simp split: prod.splits sum.splits)
qed

lemma isArray_entries: "isArray e \<Longrightarrow> entries e = indexed_from 0 (indexed_elems e)"
  by (cases e) (simp_all add: entries_def)

lemma each_body_run:
  assumes "\<not> nullish e" "this_free g"
  shows "each_body h e (F g) context st = run_entries (F g) (RVal Undefined) e (entries e) st"
proof (cases "each_branch h e")
  case NativeForEach
  then have "isArray e" by (auto simp: each_branch_def split: if_splits)
  with NativeForEach assms show ?thesis
    by (simp add: each_body_def native_forEach_def forEach_loop_run isArray_entries
        run_entries_this_free [of g "recv_of context" _ _ _ "RVal Undefined"])
next
  case IndexLoop
  then have "isNumber (length_of e)" by (auto simp: each_branch_def split: if_splits)
  with IndexLoop assms show ?thesis
    by (simp add: each_body_def index_loop_run entries_def
        run_entries_this_free [of g "RVal e" _ _ _ "RVal Undefined"])
next
  case KeyLoop
  then have "\<not> isNumber (length_of e)" by (auto simp: each_branch_def split: if_splits)
  with KeyLoop assms show ?thesis
    by (simp add: each_body_def key_loop_run entries_def
        run_entries_this_free [of g "recv_of context" _ _ _ "RVal Undefined"])
qed

section \<open>filter and reject\<close>

lemma this_free_filter_fn: "this_free (filter_fn p callback context)"
  by (simp add: this_free_def filter_fn_def)

lemma run_filter_fn_visit:
  "visit callback (recv_of context) e es s = (s', Inr rs) \<Longrightarrow>
   run_entries (F (filter_fn p callback context)) r e es (s, acc)
     = ((s', acc @ kept (\<not> p) es rs), Inr ())"
proof (induction es arbitrary: s acc rs)
  case Nil
  then show ?case by simp
next
  case (Cons kv es)
  obtain k v where kv: "kv = (k, v)" by (cases kv)
  from Cons.prems kv obtain s1 x rs1 where
    c: "call callback (recv_of context) [v, k, e] s = (s1, Inr x)"
    and v: "visit callback (recv_of context) e es s1 = (s', Inr rs1)"
    and rs: "rs = x # rs1"
    by (auto split: prod.splits sum.splits)
  from Cons.IH [OF v]
  have ih: "run_entries (F (filter_fn p callback context)) r e es (s1, acc')
              = ((s', acc' @ kept (\<not> p) es rs1), Inr ())" for acc' .
  have step: "filter_fn p callback context r [v, k, e] (s, acc)
      = ((s1, if truthy x then acc @ [if p then Arr [k, v] else v] else acc), Inr Undefined)"
    using c by (simp add: filter_fn_def param_def)
  show ?case
    using kv rs ih step by simp
qed

lemma filter_loop_visit:
  "visit callback r arr (indexed_from i xs) s = (s', Inr rs) \<Longrightarrow>
   filter_loop callback r arr xs i acc s = (s', Inr (Arr (acc @ kept True (indexed_from i xs) rs)))"
proof (induction xs arbitrary: i s acc rs)
  case Nil
  then show ?case by simp
next
  case (Cons x xs)
  from Cons.prems obtain s1 y rs1 where
    c: "call callback r [x, Num (int i), arr] s = (s1, Inr y)"
    and v: "visit callback r arr (indexed_from (Suc i) xs) s1 = (s', Inr rs1)"
    and rs: "rs = y # rs1"
    by (auto split: prod.splits sum.splits)
  from Cons.IH [OF v]
  have ih: "filter_loop callback r arr xs (Suc i) acc' s1
              = (s', Inr (Arr (acc' @ kept True (indexed_from (Suc i) xs) rs1)))" for acc' .
  show ?case using c rs ih by simp
qed

lemma filter_visit:
  assumes "\<not> nullish e" "is_callable callback"
    and "visit callback (recv_of context) e (entries e) s = (s', Inr rs)"
  shows "filter_js h e callback context s = (s', Inr (Arr (kept (isArray e) (entries e) rs)))"
proof (cases "has_filter h \<and> isArray e")
  case True
  with assms show ?thesis
    by (simp add: filter_js_def native_filter_def isArray_entries filter_loop_visit)
next
  case False
  have "each_body h e (F (filter_fn (\<not> isArray e) callback context)) (V Undefined) (s, [])
          = ((s', kept (isArray e) (entries e) rs), Inr ())"
    using assms by (simp add: each_body_run this_free_filter_fn run_filter_fn_visit)
  with False assms(1) show ?thesis
    by (auto simp: filter_js_def filter_fallback_def each_def)
qed



lemma visit_is_even_obj:
  "visit (F is_even) r (Obj [(''a'', Num 1), (''b'', Num 2)])
     (entries (Obj [(''a'', Num 1), (''b'', Num 2)])) (s::nat) = (s, Inr [Bool False, Bool True])"
  by (simp add: entries_def is_even_def param_def)



lemma visit_negated:
  "visit callback (recv_of context) e es s = (s', Inr rs) \<Longrightarrow>
   visit (F (negated callback context)) r e es s = (s', Inr (map (\<lambda>x. Bool (\<not> truthy x)) rs))"
proof (induction es arbitrary: s rs)
  case Nil
  then show ?case by simp
next
  case (Cons kv es)
  obtain k v where kv: "kv = (k, v)" by (cases kv)
  from Cons.prems kv obtain s1 x rs1 where
    c: "call callback (recv_of context) [v, k, e] s = (s1, Inr x)"
    and v: "visit callback (recv_of context) e es s1 = (s', Inr rs1)"
    and rs: "rs = x # rs1"
    by (auto split: prod.splits sum.splits)
  have step: "negated callback context r [v, k, e] s = (s1, Inr (Bool (\<not> truthy x)))"
    using c by (simp add: negated_def)
  from Cons.IH [OF v] step kv rs show ?case by simp
qed

text \<open>
  C8. reject, called on the module, is filter on the negated callback, for every input,
  host, context and state; and whenever the callback returns on every element, reject
  returns the bare values (true Array) or the \<open>[key, value]\<close> pairs (any other input) of
  exactly the elements on which the callback's result is falsy.
\<close>

theorem reject_is_filter_negated:
  "reject h e callback context s = filter_js h e (F (negated callback context)) context s \<and>
   (\<not> nullish e \<and> visit callback (recv_of context) e (entries e) s = (s', Inr rs) \<longrightarrow>
      reject h e callback context s
        = (s', Inr (Arr (kept (isArray e) (entries e) (map (\<lambda>x. Bool (\<not> truthy x)) rs)))))"
proof (intro conjI impI)
  show eq: "reject h e callback context s = filter_js h e (F (negated callback context)) context s"
    by (simp add: reject_def reject_with_def)
  assume a: "\<not> nullish e \<and> visit callback (recv_of context) e (entries e) s = (s', Inr rs)"
  then have "visit (F (negated callback context)) (recv_of context) e (entries e) s
               = (s', Inr (map (\<lambda>x. Bool (\<not> truthy x)) rs))"
    by (simp add: visit_negated)
  with a have "filter_js h e (F (negated callback context)) context s
      = (s', Inr (Arr (kept (isArray e) (entries e) (map (\<lambda>x. Bool (\<not> truthy x)) rs))))"
    by (intro filter_visit) simp_all
  with eq show "reject h e callback context s
      = (s', Inr (Arr (kept (isArray e) (entries e) (map (\<lambda>x. Bool (\<not> truthy x)) rs))))"
    by simp
qed

theorem reject_is_filter_negated_witness:
  "reject modern_host (Obj [(''a'', Num 1), (''b'', Num 2)]) (F is_even) (V Undefined) (0::nat)
     = (0, Inr (Arr [Arr [Str ''a'', Num 1]])) \<and>
   filter_js modern_host (Obj [(''a'', Num 1), (''b'', Num 2)])
     (F (negated (F is_even) (V Undefined))) (V Undefined) (0::nat)
     = (0, Inr (Arr [Arr [Str ''a'', Num 1]]))"
proof -
  let ?o = "Obj [(''a'', Num 1), (''b'', Num 2)]"
  have n1: "\<not> nullish ?o" by simp
  have v: "visit (F is_even) (recv_of (V Undefined :: nat jv)) ?o (entries ?o) (0::nat)
             = (0, Inr [Bool False, Bool True])"
    by (rule visit_is_even_obj)
  have k: "kept (isArray ?o) (entries ?o) (map (\<lambda>x. Bool (\<not> truthy x)) [Bool False, Bool True])
             = [Arr [Str ''a'', Num 1]]"
    by (simp add: entries_def)
  from reject_is_filter_negated [of modern_host ?o "F is_even" "V Undefined" "0::nat" 0
      "[Bool False, Bool True]"]
    n1 v
  have "reject modern_host ?o (F is_even) (V Undefined) (0::nat)
          = filter_js modern_host ?o (F (negated (F is_even) (V Undefined))) (V Undefined) 0"
    and "reject modern_host ?o (F is_even) (V Undefined) (0::nat)
          = (0, Inr (Arr (kept (isArray ?o) (entries ?o)
               (map (\<lambda>x. Bool (\<not> truthy x)) [Bool False, Bool True]))))"
    by blast+
  with k show ?thesis by simp
qed

section \<open>some and all\<close>

lemma this_free_some_fn: "this_free (some_fn callback context)"
  by (simp add: this_free_def some_fn_def)

lemma this_free_all_fn: "this_free (all_fn callback context)"
  by (simp add: this_free_def all_fn_def)

lemma run_some_fn_prefix:
  "visit callback (recv_of context) e pre s = (s1, Inr rs) \<Longrightarrow> \<forall>y \<in> set rs. \<not> truthy y \<Longrightarrow>
   run_entries (F (some_fn callback context)) r e (pre @ rest) (s, res)
     = run_entries (F (some_fn callback context)) r e rest (s1, last (res # rs))"
proof (induction pre arbitrary: s res rs)
  case Nil
  then show ?case by simp
next
  case (Cons kv pre)
  obtain k v where kv: "kv = (k, v)" by (cases kv)
  from Cons.prems(1) kv obtain s0 x rs1 where
    c: "call callback (recv_of context) [v, k, e] s = (s0, Inr x)"
    and v: "visit callback (recv_of context) e pre s0 = (s1, Inr rs1)"
    and rs: "rs = x # rs1"
    by (auto split: prod.splits sum.splits)
  from Cons.prems(2) rs have nx: "\<not> truthy x" and nrs: "\<forall>y \<in> set rs1. \<not> truthy y" by simp_all
  have step: "some_fn callback context r [v, k, e] (s, res) = ((s0, x), Inr Undefined)"
    using c nx by (simp add: some_fn_def param_def)
  from Cons.IH [OF v nrs, of x] step kv rs show ?case by simp
qed

lemma run_all_fn_prefix:
  "visit callback (recv_of context) e pre s = (s1, Inr rs) \<Longrightarrow> \<forall>y \<in> set rs. truthy y \<Longrightarrow>
   truthy res \<Longrightarrow>
   run_entries (F (all_fn callback context)) r e (pre @ rest) (s, res)
     = run_entries (F (all_fn callback context)) r e rest (s1, last (res # rs))"
proof (induction pre arbitrary: s res rs)
  case Nil
  then show ?case by simp
next
  case (Cons kv pre)
  obtain k v where kv: "kv = (k, v)" by (cases kv)
  from Cons.prems(1) kv obtain s0 x rs1 where
    c: "call callback (recv_of context) [v, k, e] s = (s0, Inr x)"
    and v: "visit callback (recv_of context) e pre s0 = (s1, Inr rs1)"
    and rs: "rs = x # rs1"
    by (auto split: prod.splits sum.splits)
  from Cons.prems(2) rs have nx: "truthy x" and nrs: "\<forall>y \<in> set rs1. truthy y" by simp_all
  have step: "all_fn callback context r [v, k, e] (s, res) = ((s0, x), Inr Undefined)"
    using c nx Cons.prems(3) by (simp add: all_fn_def param_def)
  from Cons.IH [OF v nrs nx] step kv rs show ?case by simp
qed

lemma some_loop_Bool:
  "some_loop callback r arr xs i s = (s', Inr w) \<Longrightarrow> \<exists>b. w = Bool b"
  by (induction xs arbitrary: i s) (auto split: prod.splits sum.splits if_splits)

lemma every_loop_Bool:
  "every_loop callback r arr xs i s = (s', Inr w) \<Longrightarrow> \<exists>b. w = Bool b"
  by (induction xs arbitrary: i s) (auto split: prod.splits sum.splits if_splits)

lemma some_fallback_first_truthy:
  assumes "\<not> nullish e" and "entries e = pre @ (k, v) # post"
    and "visit (F f) (recv_of context) e pre s = (s1, Inr rs)"
    and "call (F f) (recv_of context) [v, k, e] s1 = (s2, Inr x)"
    and "\<forall>y \<in> set rs. \<not> truthy y" and "truthy x"
  shows "some_fallback h e (F f) context s = (s2, Inr x)"
proof -
  have step: "some_fn (F f) context r [v, k, e] (s1, res) = ((s2, x), Inl Break)" for r res
    using assms(4,6) by (simp add: some_fn_def param_def)
  have "each_body h e (F (some_fn (F f) context)) (V Undefined) (s, Bool False)
          = run_entries (F (some_fn (F f) context)) (RVal Undefined) e (pre @ (k, v) # post) (s, Bool False)"
    using assms(1,2) by (simp add: each_body_run this_free_some_fn)
  also have "\<dots> = ((s2, x), Inl Break)"
    using run_some_fn_prefix [OF assms(3,5)] step by simp
  finally show ?thesis
    by (simp add: some_fallback_def each_def)
qed

lemma all_fallback_first_falsy:
  assumes "\<not> nullish e" and "entries e = pre @ (k, v) # post"
    and "visit (F f) (recv_of context) e pre s = (s1, Inr rs)"
    and "call (F f) (recv_of context) [v, k, e] s1 = (s2, Inr x)"
    and "\<forall>y \<in> set rs. truthy y" and "\<not> truthy x"
  shows "all_fallback h e (F f) context s = (s2, Inr x)"
proof -
  have t: "truthy (last (Bool True # rs))" using assms(5) by (cases rs) auto
  have step: "all_fn (F f) context r [v, k, e] (s1, last (Bool True # rs)) = ((s2, x), Inl Break)" for r
    using assms(4,6) t by (simp add: all_fn_def param_def)
  have "each_body h e (F (all_fn (F f) context)) (V Undefined) (s, Bool True)
          = run_entries (F (all_fn (F f) context)) (RVal Undefined) e (pre @ (k, v) # post) (s, Bool True)"
    using assms(1,2) by (simp add: each_body_run this_free_all_fn)
  also have "\<dots> = ((s2, x), Inl Break)"
    using run_all_fn_prefix [OF assms(3,5), of "Bool True"] step by simp
  finally show ?thesis
    by (simp add: all_fallback_def each_def)
qed

lemma all_fallback_last_truthy:
  assumes "\<not> nullish e" and "entries e = pre @ [(k, v)]"
    and "visit (F f) (recv_of context) e pre s = (s1, Inr rs)"
    and "call (F f) (recv_of context) [v, k, e] s1 = (s2, Inr x)"
    and "\<forall>y \<in> set rs. truthy y" and "truthy x"
  shows "all_fallback h e (F f) context s = (s2, Inr x)"
proof -
  have t: "truthy (last (Bool True # rs))" using assms(5) by (cases rs) auto
  have step: "all_fn (F f) context r [v, k, e] (s1, last (Bool True # rs)) = ((s2, x), Inr Undefined)" for r
    using assms(4,6) t by (simp add: all_fn_def param_def)
  have "each_body h e (F (all_fn (F f) context)) (V Undefined) (s, Bool True)
          = run_entries (F (all_fn (F f) context)) (RVal Undefined) e (pre @ [(k, v)]) (s, Bool True)"
    using assms(1,2) by (simp add: each_body_run this_free_all_fn)
  also have "\<dots> = ((s2, x), Inr ())"
    using run_all_fn_prefix [OF assms(3,5), of "Bool True"] step by simp
  finally show ?thesis
    by (simp add: all_fallback_def each_def)
qed

text \<open>
  C9. Let the callback return falsy results on the elements before some element, and a
  truthy result \<open>x\<close> on that element: on the each-based path some returns \<open>x\<close> itself.
  Let it return truthy results before, and a falsy \<open>x\<close> there: on the each-based path
  all returns \<open>x\<close> itself; and when the results are truthy up to and including the last
  element, all returns the last result. On the native path of a true Array both return a
  Boolean.
\<close>

theorem fallback_returns_callback_value:
  assumes "\<not> nullish e" and "entries e = pre @ (k, v) # post"
    and "visit (F f) (recv_of context) e pre s = (s1, Inr rs)"
    and "call (F f) (recv_of context) [v, k, e] s1 = (s2, Inr x)"
  shows "(\<not> (has_some h \<and> isArray e) \<and> (\<forall>y \<in> set rs. \<not> truthy y) \<and> truthy x \<longrightarrow>
            some h e (F f) context s = (s2, Inr x)) \<and>
         (\<not> (has_every h \<and> isArray e) \<and> (\<forall>y \<in> set rs. truthy y) \<and> \<not> truthy x \<longrightarrow>
            all h e (F f) context s = (s2, Inr x)) \<and>
         (\<not> (has_every h \<and> isArray e) \<and> (\<forall>y \<in> set rs. truthy y) \<and> truthy x \<and> post = [] \<longrightarrow>
            all h e (F f) context s = (s2, Inr x)) \<and>
         (has_some h \<and> isArray e \<longrightarrow>
            (\<forall>s' w. some h e (F f) context s = (s', Inr w) \<longrightarrow> (\<exists>b. w = Bool b))) \<and>
         (has_every h \<and> isArray e \<longrightarrow>
            (\<forall>s' w. all h e (F f) context s = (s', Inr w) \<longrightarrow> (\<exists>b. w = Bool b)))"
proof (intro conjI impI allI)
  assume "\<not> (has_some h \<and> isArray e) \<and> (\<forall>y \<in> set rs. \<not> truthy y) \<and> truthy x"
  with assms show "some h e (F f) context s = (s2, Inr x)"
    using some_fallback_first_truthy [OF assms, of h] by (auto simp: some_def)
next
  assume "\<not> (has_every h \<and> isArray e) \<and> (\<forall>y \<in> set rs. truthy y) \<and> \<not> truthy x"
  with assms show "all h e (F f) context s = (s2, Inr x)"
    using all_fallback_first_falsy [OF assms, of h] by (auto simp: all_def)
next
  assume a: "\<not> (has_every h \<and> isArray e) \<and> (\<forall>y \<in> set rs. truthy y) \<and> truthy x \<and> post = []"
  with assms(2) have "entries e = pre @ [(k, v)]" by simp
  from all_fallback_last_truthy [OF assms(1) this assms(3,4), of h] a assms(1)
  show "all h e (F f) context s = (s2, Inr x)" by (auto simp: all_def)
next
  fix s' w
  assume "has_some h \<and> isArray e" and "some h e (F f) context s = (s', Inr w)"
  with assms(1) show "\<exists>b. w = Bool b"
    by (auto simp: some_def native_some_def dest: some_loop_Bool)
next
  fix s' w
  assume "has_every h \<and> isArray e" and "all h e (F f) context s = (s', Inr w)"
  with assms(1) show "\<exists>b. w = Bool b"
    by (auto simp: all_def native_every_def dest: every_loop_Bool)
qed

theorem fallback_returns_callback_value_witness:
  "some modern_host (ArrayLike [Num 0, Num 5]) (F identity) (V Undefined) (0::nat)
     = (0, Inr (Num 5)) \<and>
   all modern_host (ArrayLike [Num 3, Num 0]) (F identity) (V Undefined) (0::nat)
     = (0, Inr (Num 0)) \<and>
   all modern_host (ArrayLike [Num 3, Num 5]) (F identity) (V Undefined) (0::nat)
     = (0, Inr (Num 5))"
proof -
  let ?c = "V Undefined :: nat jv"
  have s: "some modern_host (ArrayLike [Num 0, Num 5]) (F identity) ?c (0::nat) = (0, Inr (Num 5))"
  proof -
    let ?e = "ArrayLike [Num 0, Num 5]"
    have n: "\<not> nullish ?e" by simp
    have es: "entries ?e = [(Num 0, Num 0)] @ (Num 1, Num 5) # []" by (simp add: entries_def)
    have v: "visit (F identity) (recv_of ?c) ?e [(Num 0, Num 0)] (0::nat) = (0, Inr [Num 0])"
      by (simp add: identity_def param_def)
    have c: "call (F identity) (recv_of ?c) [Num 5, Num 1, ?e] (0::nat) = (0, Inr (Num 5))"
      by (simp add: identity_def param_def)
    from fallback_returns_callback_value [OF n es v c, of modern_host]
    show ?thesis by simp
  qed
  have a1: "all modern_host (ArrayLike [Num 3, Num 0]) (F identity) ?c (0::nat) = (0, Inr (Num 0))"
  proof -
    let ?e = "ArrayLike [Num 3, Num 0]"
    have n: "\<not> nullish ?e" by simp
    have es: "entries ?e = [(Num 0, Num 3)] @ (Num 1, Num 0) # []" by (simp add: entries_def)
    have v: "visit (F identity) (recv_of ?c) ?e [(Num 0, Num 3)] (0::nat) = (0, Inr [Num 3])"
      by (simp add: identity_def param_def)
    have c: "call (F identity) (recv_of ?c) [Num 0, Num 1, ?e] (0::nat) = (0, Inr (Num 0))"
      by (simp add: identity_def param_def)
    from fallback_returns_callback_value [OF n es v c, of modern_host]
    show ?thesis by simp
  qed
  have a2: "all modern_host (ArrayLike [Num 3, Num 5]) (F identity) ?c (0::nat) = (0, Inr (Num 5))"
  proof -
    let ?e = "ArrayLike [Num 3, Num 5]"
    have n: "\<not> nullish ?e" by simp
    have es: "entries ?e = [(Num 0, Num 3)] @ (Num 1, Num 5) # []" by (simp add: entries_def)
    have v: "visit (F identity) (recv_of ?c) ?e [(Num 0, Num 3)] (0::nat) = (0, Inr [Num 3])"
      by (simp add: identity_def param_def)
    have c: "call (F identity) (recv_of ?c) [Num 5, Num 1, ?e] (0::nat) = (0, Inr (Num 5))"
      by (simp add: identity_def param_def)
    from fallback_returns_callback_value [OF n es v c, of modern_host]
    show ?thesis by simp
  qed
  from s a1 a2 show ?thesis by simp
qed

section \<open>flatten leaves its input alone\<close>

lemma elems_append [simp]: "b < length st \<Longrightarrow> elems (st @ ys) b = elems st b"
  by (simp add: elems_def nth_append)












section \<open>The native path and the path through each\<close>

text \<open>
  On a true Array, for a callable callback that throws nothing each swallows, map, filter
  and reduce computed by the host's method and computed through each end in the same state
  of the callback with the same result or the same thrown value, and include gives the same
  answer; some and all agree up to the conversion of the result to a Boolean.
\<close>

lemma visit_throw:
  "visit callback r e es s = (s', Inl t) \<Longrightarrow> throws_no_Break callback \<Longrightarrow> loose_neq_Break t"
proof (induction es arbitrary: s)
  case Nil
  then show ?case by simp
next
  case (Cons kv es)
  obtain k v where kv: "kv = (k, v)" by (cases kv)
  obtain s1 r1 where c: "call callback r [v, k, e] s = (s1, r1)"
    by (cases "call callback r [v, k, e] s")
  show ?case
  proof (cases r1)
    case (Inl t1)
    with Cons.prems(1) kv c have "t = t1" by simp
    with Cons.prems(2) c Inl show ?thesis unfolding throws_no_Break_def by blast
  next
    case (Inr x)
    with Cons.prems(1) kv c have "visit callback r e es s1 = (s', Inl t)"
      by (simp split: prod.splits sum.splits)
    with Cons.IH Cons.prems(2) show ?thesis by blast
  qed
qed

lemma map_loop_visit:
  "map_loop callback r arr xs i acc s =
     (case visit callback r arr (indexed_from i xs) s of
        (s', Inl t) \<Rightarrow> (s', Inl t)
      | (s', Inr rs) \<Rightarrow> (s', Inr (Arr (acc @ rs))))"
  by (induction xs arbitrary: i acc s) (auto split: prod.splits sum.splits)

lemma run_map_fn_visit:
  "(case run_entries (F (map_fn callback context)) r e es (s, acc) of
      ((s', acc'), Inl t) \<Rightarrow> (s', Inl t)
    | ((s', acc'), Inr u) \<Rightarrow> (s', Inr (Arr acc')))
   = (case visit callback (recv_of context) e es s of
        (s', Inl t) \<Rightarrow> (s', Inl t)
      | (s', Inr rs) \<Rightarrow> (s', Inr (Arr (acc @ rs))))"
proof (induction es arbitrary: s acc)
  case Nil
  then show ?case by simp
next
  case (Cons kv es)
  obtain k v where kv: "kv = (k, v)" by (cases kv)
  obtain s1 r1 where c: "call callback (recv_of context) [v, k, e] s = (s1, r1)"
    by (cases "call callback (recv_of context) [v, k, e] s")
  show ?case
  proof (cases r1)
    case (Inl t)
    with c have "map_fn callback context r [v, k, e] (s, acc) = ((s1, acc), Inl t)"
      by (simp add: map_fn_def param_def)
    with c Inl kv show ?thesis by simp
  next
    case (Inr x)
    with c have "map_fn callback context r [v, k, e] (s, acc) = ((s1, acc @ [x]), Inr Undefined)"
      by (simp add: map_fn_def param_def)
    with c Inr kv Cons.IH [of s1 "acc @ [x]"] show ?thesis
      by (simp split: prod.splits sum.splits)
  qed
qed


lemma this_free_map_fn: "this_free (map_fn callback context)"
  by (simp add: this_free_def map_fn_def)

lemma this_free_reduce_fn: "this_free (reduce_fn callback context)"
  by (simp add: this_free_def reduce_fn_def)

lemma this_free_include_fn: "this_free (include_fn seq target)"
  by (simp add: this_free_def include_fn_def)

lemma isArray_not_nullish: "isArray e \<Longrightarrow> \<not> nullish e"
  by (cases e) simp_all

lemma map_paths_agree:
  assumes "isArray e" "is_callable callback" "throws_no_Break callback"
  shows "map_fallback h e callback context s = native_map e callback context s"
proof -
  let ?v = "visit callback (recv_of context) e (entries e) s"
  obtain s1 acc1 out where
    run: "run_entries (F (map_fn callback context)) (RVal Undefined) e (entries e) (s, []) = ((s1, acc1), out)"
    by (metis surj_pair)
  with assms(1) have body:
    "each_body h e (F (map_fn callback context)) (V Undefined) (s, []) = ((s1, acc1), out)"
    by (simp add: each_body_run this_free_map_fn isArray_not_nullish)
  have nat: "native_map e callback context s =
      (case ?v of (s', Inl t) \<Rightarrow> (s', Inl t) | (s', Inr rs) \<Rightarrow> (s', Inr (Arr rs)))"
    using assms(1,2)
    by (simp add: native_map_def map_loop_visit isArray_entries split: prod.splits sum.splits)
  from run_map_fn_visit [of callback "context" "RVal Undefined" e "entries e" s "[]"] run
  have proj: "(case out of Inl t \<Rightarrow> (s1, Inl t) | Inr u \<Rightarrow> (s1, Inr (Arr acc1)))
      = (case ?v of (s', Inl t) \<Rightarrow> (s', Inl t) | (s', Inr rs) \<Rightarrow> (s', Inr (Arr rs)))"
    by (simp split: prod.splits sum.splits)
  show ?thesis
  proof (cases out)
    case (Inl t)
    with proj have "?v = (s1, Inl t)" by (auto split: prod.splits sum.splits)
    then have "loose_neq_Break t" using assms(3) by (rule visit_throw)
    with body Inl proj nat show ?thesis by (simp add: map_fallback_def each_def)
  next
    case (Inr u)
    with body proj nat show ?thesis by (simp add: map_fallback_def each_def)
  qed
qed

lemma filter_loop_visit_eq:
  "filter_loop callback r arr xs i acc s =
     (case visit callback r arr (indexed_from i xs) s of
        (s', Inl t) \<Rightarrow> (s', Inl t)
      | (s', Inr rs) \<Rightarrow> (s', Inr (Arr (acc @ kept True (indexed_from i xs) rs))))"
  by (induction xs arbitrary: i acc s) (auto split: prod.splits sum.splits)

lemma run_filter_fn_visit_eq:
  "(case run_entries (F (filter_fn p callback context)) r e es (s, acc) of
      ((s', acc'), Inl t) \<Rightarrow> (s', Inl t)
    | ((s', acc'), Inr u) \<Rightarrow> (s', Inr (Arr acc')))
   = (case visit callback (recv_of context) e es s of
        (s', Inl t) \<Rightarrow> (s', Inl t)
      | (s', Inr rs) \<Rightarrow> (s', Inr (Arr (acc @ kept (\<not> p) es rs))))"
proof (induction es arbitrary: s acc)
  case Nil
  then show ?case by simp
next
  case (Cons kv es)
  obtain k v where kv: "kv = (k, v)" by (cases kv)
  obtain s1 r1 where c: "call callback (recv_of context) [v, k, e] s = (s1, r1)"
    by (cases "call callback (recv_of context) [v, k, e] s")
  show ?case
  proof (cases r1)
    case (Inl t)
    with c have "filter_fn p callback context r [v, k, e] (s, acc) = ((s1, acc), Inl t)"
      by (simp add: filter_fn_def param_def)
    with c Inl kv show ?thesis by simp
  next
    case (Inr x)
    with c have "filter_fn p callback context r [v, k, e] (s, acc)
        = ((s1, if truthy x then acc @ [if p then Arr [k, v] else v] else acc), Inr Undefined)"
      by (simp add: filter_fn_def param_def)
    with c Inr kv
      Cons.IH [of s1 "if truthy x then acc @ [if p then Arr [k, v] else v] else acc"]
    show ?thesis
      by (simp split: prod.splits sum.splits)
  qed
qed

lemma filter_paths_agree:
  assumes "isArray e" "is_callable callback" "throws_no_Break callback"
  shows "filter_fallback h e callback context s = native_filter e callback context s"
proof -
  let ?v = "visit callback (recv_of context) e (entries e) s"
  obtain s1 acc1 out where
    run: "run_entries (F (filter_fn False callback context)) (RVal Undefined) e (entries e) (s, [])
            = ((s1, acc1), out)"
    by (metis surj_pair)
  with assms(1) have body:
    "each_body h e (F (filter_fn False callback context)) (V Undefined) (s, []) = ((s1, acc1), out)"
    by (simp add: each_body_run this_free_filter_fn isArray_not_nullish)
  have nat: "native_filter e callback context s =
      (case ?v of (s', Inl t) \<Rightarrow> (s', Inl t)
       | (s', Inr rs) \<Rightarrow> (s', Inr (Arr (kept True (entries e) rs))))"
    using assms(1,2)
    by (simp add: native_filter_def filter_loop_visit_eq isArray_entries split: prod.splits sum.splits)
  from run_filter_fn_visit_eq [of False callback "context" "RVal Undefined" e "entries e" s "[]"] run
  have proj: "(case out of Inl t \<Rightarrow> (s1, Inl t) | Inr u \<Rightarrow> (s1, Inr (Arr acc1)))
      = (case ?v of (s', Inl t) \<Rightarrow> (s', Inl t)
         | (s', Inr rs) \<Rightarrow> (s', Inr (Arr (kept True (entries e) rs))))"
    by (simp split: prod.splits sum.splits)
  show ?thesis
  proof (cases out)
    case (Inl t)
    with proj have "?v = (s1, Inl t)" by (auto split: prod.splits sum.splits)
    then have "loose_neq_Break t" using assms(3) by (rule visit_throw)
    with body Inl proj nat assms(1) show ?thesis by (simp add: filter_fallback_def each_def)
  next
    case (Inr u)
    with body proj nat assms(1) show ?thesis by (simp add: filter_fallback_def each_def)
  qed
qed

lemma call_bind:
  "call (F (bind callback context)) r args s = call callback (recv_of context) args s"
  by (simp add: bind_def)

lemma reduce_loop_throw:
  "reduce_loop (F (bind callback context)) arr xs i acc s = (s', Inl t) \<Longrightarrow>
   throws_no_Break callback \<Longrightarrow> loose_neq_Break t"
proof (induction xs arbitrary: i acc s)
  case Nil
  then show ?case by simp
next
  case (Cons x xs)
  obtain s1 r1 where c: "call callback (recv_of context) [acc, x, Num (int i), arr] s = (s1, r1)"
    by (cases "call callback (recv_of context) [acc, x, Num (int i), arr] s")
  show ?case
  proof (cases r1)
    case (Inl t1)
    with Cons.prems(1) c have "t = t1" by (simp add: call_bind del: call.simps)
    with Cons.prems(2) c Inl show ?thesis unfolding throws_no_Break_def by blast
  next
    case (Inr y)
    with Cons.prems(1) c
    have "reduce_loop (F (bind callback context)) arr xs (Suc i) y s1 = (s', Inl t)"
      by (simp add: call_bind del: call.simps)
    with Cons.IH Cons.prems(2) show ?thesis by blast
  qed
qed

lemma run_reduce_fn:
  "(case run_entries (F (reduce_fn callback context)) r e (indexed_from i xs) (s, memo) of
      ((s', m'), Inl t) \<Rightarrow> (s', Inl t)
    | ((s', m'), Inr u) \<Rightarrow> (s', Inr m'))
   = reduce_loop (F (bind callback context)) e xs i memo s"
proof (induction xs arbitrary: i s memo)
  case Nil
  then show ?case by simp
next
  case (Cons x xs)
  obtain s1 r1 where c: "call callback (recv_of context) [memo, x, Num (int i), e] s = (s1, r1)"
    by (cases "call callback (recv_of context) [memo, x, Num (int i), e] s")
  show ?case
  proof (cases r1)
    case (Inl t)
    with c have "reduce_fn callback context r [x, Num (int i), e] (s, memo) = ((s1, memo), Inl t)"
      by (simp add: reduce_fn_def param_def)
    moreover have "call (F (reduce_fn callback context)) r [x, Num (int i), e] (s, memo)
        = reduce_fn callback context r [x, Num (int i), e] (s, memo)" by simp
    ultimately show ?thesis using c Inl by (simp add: call_bind del: call.simps)
  next
    case (Inr y)
    with c have "reduce_fn callback context r [x, Num (int i), e] (s, memo) = ((s1, y), Inr Undefined)"
      by (simp add: reduce_fn_def param_def)
    moreover have "call (F (reduce_fn callback context)) r [x, Num (int i), e] (s, memo)
        = reduce_fn callback context r [x, Num (int i), e] (s, memo)" by simp
    ultimately show ?thesis using c Inr Cons.IH [of "Suc i" s1 y]
      by (simp add: call_bind del: call.simps)
  qed
qed

lemma reduce_paths_agree:
  assumes "isArray e" "throws_no_Break callback"
  shows "reduce_fallback h e memo callback context s
           = native_reduce e (F (bind callback context)) memo s"
proof -
  obtain s1 m1 out where
    run: "run_entries (F (reduce_fn callback context)) (RVal Undefined) e
            (indexed_from 0 (indexed_elems e)) (s, memo) = ((s1, m1), out)"
    by (metis surj_pair)
  with assms(1) have body:
    "each_body h e (F (reduce_fn callback context)) (V Undefined) (s, memo) = ((s1, m1), out)"
    by (simp add: each_body_run this_free_reduce_fn isArray_not_nullish isArray_entries)
  from run_reduce_fn [of callback "context" "RVal Undefined" e 0 "indexed_elems e" s memo] run
  have proj: "(case out of Inl t \<Rightarrow> (s1, Inl t) | Inr u \<Rightarrow> (s1, Inr m1))
      = reduce_loop (F (bind callback context)) e (indexed_elems e) 0 memo s"
    by simp
  show ?thesis
  proof (cases out)
    case (Inl t)
    with proj have "reduce_loop (F (bind callback context)) e (indexed_elems e) 0 memo s = (s1, Inl t)"
      by simp
    then have "loose_neq_Break t" using assms(2) by (rule reduce_loop_throw)
    with body Inl proj show ?thesis by (simp add: reduce_fallback_def each_def native_reduce_def)
  next
    case (Inr u)
    with body proj show ?thesis by (simp add: reduce_fallback_def each_def native_reduce_def)
  qed
qed

lemma run_include_fn:
  "run_entries (F (include_fn seq target)) r e (indexed_from i xs) found
     = (if indexOf_found seq xs target then (True, Inl Break)
        else ((xs = [] \<and> found), Inr ()))"
proof (induction xs arbitrary: i found)
  case Nil
  then show ?case by simp
next
  case (Cons x xs)
  have step: "include_fn seq target r [x, Num (int i), e] found
      = (if seq x target then (True, Inl Break) else (False, Inr Undefined))"
    by (simp add: include_fn_def param_def)
  show ?case using Cons.IH [of "Suc i" False] step by (cases xs) auto
qed

lemma include_paths_agree:
  assumes "isArray e"
  shows "include_fallback h seq e target = Inr (Bool (indexOf_found seq (indexed_elems e) target))"
proof -
  have "each_body h e (F (include_fn seq target)) (V Undefined) False
      = run_entries (F (include_fn seq target)) (RVal Undefined) e
          (indexed_from 0 (indexed_elems e)) False"
    using assms by (simp add: each_body_run this_free_include_fn isArray_not_nullish isArray_entries)
  then show ?thesis
    by (simp add: include_fallback_def each_def run_include_fn)
qed


lemma run_some_fn_native:
  assumes "throws_no_Break callback"
  shows "\<not> truthy res \<Longrightarrow>
    (case run_entries (F (some_fn callback context)) r e (indexed_from i xs) (s, res) of
       ((s', x), Inl t) \<Rightarrow>
         if loose_neq_Break t then some_loop callback (recv_of context) e xs i s = (s', Inl t)
         else some_loop callback (recv_of context) e xs i s = (s', Inr (Bool True)) \<and> truthy x
     | ((s', x), Inr u) \<Rightarrow>
         some_loop callback (recv_of context) e xs i s = (s', Inr (Bool False)) \<and> \<not> truthy x)"
proof (induction xs arbitrary: i s res)
  case Nil
  then show ?case by simp
next
  case (Cons y ys)
  obtain s1 r1 where c: "call callback (recv_of context) [y, Num (int i), e] s = (s1, r1)"
    by (cases "call callback (recv_of context) [y, Num (int i), e] s")
  have unf: "run_entries (F (some_fn callback context)) r e (indexed_from i (y # ys)) (s, res)
      = (case some_fn callback context r [y, Num (int i), e] (s, res) of
           (st, Inl t) \<Rightarrow> (st, Inl t)
         | (st, Inr u) \<Rightarrow> run_entries (F (some_fn callback context)) r e (indexed_from (Suc i) ys) st)"
    by simp
  show ?case
  proof (cases r1)
    case (Inl t)
    with c have step: "some_fn callback context r [y, Num (int i), e] (s, res) = ((s1, res), Inl t)"
      by (simp add: some_fn_def param_def)
    from assms c Inl have "loose_neq_Break t" unfolding throws_no_Break_def by blast
    with c Inl step show ?thesis unfolding unf by simp
  next
    case (Inr v)
    show ?thesis
    proof (cases "truthy v")
      case True
      with c Inr have step: "some_fn callback context r [y, Num (int i), e] (s, res)
          = ((s1, v), Inl Break)"
        by (simp add: some_fn_def param_def)
      with c Inr True show ?thesis unfolding unf by simp
    next
      case False
      with c Inr have step: "some_fn callback context r [y, Num (int i), e] (s, res)
          = ((s1, v), Inr Undefined)"
        by (simp add: some_fn_def param_def)
      have sl: "some_loop callback (recv_of context) e (y # ys) i s
          = some_loop callback (recv_of context) e ys (Suc i) s1"
        using c Inr False by simp
      from Cons.IH [OF False, of "Suc i" s1] step show ?thesis unfolding unf sl by simp
    qed
  qed
qed

lemma some_paths_truthy:
  assumes "isArray e" "is_callable callback" "throws_no_Break callback"
  shows "native_some e callback context s =
     (case some_fallback h e callback context s of
        (s', Inl t) \<Rightarrow> (s', Inl t)
      | (s', Inr v) \<Rightarrow> (s', Inr (Bool (truthy v))))"
proof -
  obtain s1 x out where
    run: "run_entries (F (some_fn callback context)) (RVal Undefined) e
            (indexed_from 0 (indexed_elems e)) (s, Bool False) = ((s1, x), out)"
    by (metis surj_pair)
  with assms(1) have body:
    "each_body h e (F (some_fn callback context)) (V Undefined) (s, Bool False) = ((s1, x), out)"
    by (simp add: each_body_run this_free_some_fn isArray_not_nullish isArray_entries)
  have nf: "\<not> truthy (Bool False)" by simp
  have main: "(case run_entries (F (some_fn callback context)) (RVal Undefined) e
        (indexed_from 0 (indexed_elems e)) (s, Bool False) of
       ((s', x), Inl t) \<Rightarrow>
         if loose_neq_Break t
         then some_loop callback (recv_of context) e (indexed_elems e) 0 s = (s', Inl t)
         else some_loop callback (recv_of context) e (indexed_elems e) 0 s = (s', Inr (Bool True))
              \<and> truthy x
     | ((s', x), Inr u) \<Rightarrow>
         some_loop callback (recv_of context) e (indexed_elems e) 0 s = (s', Inr (Bool False))
         \<and> \<not> truthy x)"
    by (rule run_some_fn_native [OF assms(3) nf])
  show ?thesis
  proof (cases out)
    case (Inl t)
    with main run body assms(2) show ?thesis
      by (cases "loose_neq_Break t") (simp_all add: some_fallback_def each_def native_some_def)
  next
    case (Inr u)
    with main run body assms(2) show ?thesis
      by (simp add: some_fallback_def each_def native_some_def)
  qed
qed

lemma run_all_fn_native:
  assumes "throws_no_Break callback"
  shows "truthy res \<Longrightarrow>
    (case run_entries (F (all_fn callback context)) r e (indexed_from i xs) (s, res) of
       ((s', x), Inl t) \<Rightarrow>
         if loose_neq_Break t then every_loop callback (recv_of context) e xs i s = (s', Inl t)
         else every_loop callback (recv_of context) e xs i s = (s', Inr (Bool False)) \<and> \<not> truthy x
     | ((s', x), Inr u) \<Rightarrow>
         every_loop callback (recv_of context) e xs i s = (s', Inr (Bool True)) \<and> truthy x)"
proof (induction xs arbitrary: i s res)
  case Nil
  then show ?case by simp
next
  case (Cons y ys)
  obtain s1 r1 where c: "call callback (recv_of context) [y, Num (int i), e] s = (s1, r1)"
    by (cases "call callback (recv_of context) [y, Num (int i), e] s")
  have unf: "run_entries (F (all_fn callback context)) r e (indexed_from i (y # ys)) (s, res)
      = (case all_fn callback context r [y, Num (int i), e] (s, res) of
           (st, Inl t) \<Rightarrow> (st, Inl t)
         | (st, Inr u) \<Rightarrow> run_entries (F (all_fn callback context)) r e (indexed_from (Suc i) ys) st)"
    by simp
  show ?case
  proof (cases r1)
    case (Inl t)
    with c Cons.prems have step: "all_fn callback context r [y, Num (int i), e] (s, res)
        = ((s1, res), Inl t)"
      by (simp add: all_fn_def param_def)
    from assms c Inl have "loose_neq_Break t" unfolding throws_no_Break_def by blast
    with c Inl step show ?thesis unfolding unf by simp
  next
    case (Inr v)
    show ?thesis
    proof (cases "truthy v")
      case False
      with c Inr Cons.prems have step: "all_fn callback context r [y, Num (int i), e] (s, res)
          = ((s1, v), Inl Break)"
        by (simp add: all_fn_def param_def)
      with c Inr False show ?thesis unfolding unf by simp
    next
      case True
      with c Inr Cons.prems have step: "all_fn callback context r [y, Num (int i), e] (s, res)
          = ((s1, v), Inr Undefined)"
        by (simp add: all_fn_def param_def)
      have sl: "every_loop callback (recv_of context) e (y # ys) i s
          = every_loop callback (recv_of context) e ys (Suc i) s1"
        using c Inr True by simp
      from Cons.IH [OF True, of "Suc i" s1] step show ?thesis unfolding unf sl by simp
    qed
  qed
qed

lemma all_paths_truthy:
  assumes "isArray e" "is_callable callback" "throws_no_Break callback"
  shows "native_every e callback context s =
     (case all_fallback h e callback context s of
        (s', Inl t) \<Rightarrow> (s', Inl t)
      | (s', Inr v) \<Rightarrow> (s', Inr (Bool (truthy v))))"
proof -
  obtain s1 x out where
    run: "run_entries (F (all_fn callback context)) (RVal Undefined) e
            (indexed_from 0 (indexed_elems e)) (s, Bool True) = ((s1, x), out)"
    by (metis surj_pair)
  with assms(1) have body:
    "each_body h e (F (all_fn callback context)) (V Undefined) (s, Bool True) = ((s1, x), out)"
    by (simp add: each_body_run this_free_all_fn isArray_not_nullish isArray_entries)
  have nf: "truthy (Bool True)" by simp
  have main: "(case run_entries (F (all_fn callback context)) (RVal Undefined) e
        (indexed_from 0 (indexed_elems e)) (s, Bool True) of
       ((s', x), Inl t) \<Rightarrow>
         if loose_neq_Break t
         then every_loop callback (recv_of context) e (indexed_elems e) 0 s = (s', Inl t)
         else every_loop callback (recv_of context) e (indexed_elems e) 0 s = (s', Inr (Bool False))
              \<and> \<not> truthy x
     | ((s', x), Inr u) \<Rightarrow>
         every_loop callback (recv_of context) e (indexed_elems e) 0 s = (s', Inr (Bool True))
         \<and> truthy x)"
    by (rule run_all_fn_native [OF assms(3) nf])
  show ?thesis
  proof (cases out)
    case (Inl t)
    with main run body assms(2) show ?thesis
      by (cases "loose_neq_Break t") (simp_all add: all_fallback_def each_def native_every_def)
  next
    case (Inr u)
    with main run body assms(2) show ?thesis
      by (simp add: all_fallback_def each_def native_every_def)
  qed
qed

text \<open>
  C2. On the array \<open>[5]\<close> with the default callback (identity), the native path of some
  and of all (a host with \<open>Array.prototype.some\<close> and \<open>every\<close>) returns \<open>true\<close>, the
  each-based path (a host without them) returns \<open>5\<close>: the two paths do not return the
  same result.
\<close>

theorem some_paths_differ:
  "some modern_host (Arr [Num 5]) (V Undefined) (V Undefined) (0::nat) = (0, Inr (Bool True)) \<and>
   some legacy_host (Arr [Num 5]) (V Undefined) (V Undefined) (0::nat) = (0, Inr (Num 5)) \<and>
   all modern_host (Arr [Num 5]) (V Undefined) (V Undefined) (0::nat) = (0, Inr (Bool True)) \<and>
   all legacy_host (Arr [Num 5]) (V Undefined) (V Undefined) (0::nat) = (0, Inr (Num 5))"
  by (simp add: some_def all_def modern_host_def legacy_host_def native_some_def native_every_def
      some_fallback_def all_fallback_def each_def each_body_def each_branch_def
      some_fn_def all_fn_def identity_def param_def)

end
